theory Spec2Isabelle
  imports Main "HOL-Library.AList" "HOL-Library.Char_ord" "HOL-Library.List_Lexorder"
begin

section \<open>Values and records\<close>

text \<open>
  The scrapers keep every job as a Python \<^verbatim>\<open>dict\<close> loaded from or written to JSON.
  A value is \<^verbatim>\<open>None\<close>, a boolean, an integer, a string, an array, or something else
  (a float or an object). Rendering arrays, floats and objects with \<^verbatim>\<open>str()\<close> is not
  modelled: such a value carries the text \<^verbatim>\<open>str()\<close> gives for it, and a float or an
  object carries its truth value as well.

  A character is a code point below 256; texts with other code points are outside the
  model.
\<close>

datatype jval =
    JNull
  | JBool bool
  | JInt int
  | JStr string
  | JList "jval list" string
  | JOther bool string

type_synonym job = "string \<rightharpoonup> jval"

text \<open>\<^verbatim>\<open>d.get(k)\<close>: a missing key reads as \<^verbatim>\<open>None\<close>.\<close>

definition get :: "job \<Rightarrow> string \<Rightarrow> jval" where
  "get d k = (case d k of None \<Rightarrow> JNull | Some v \<Rightarrow> v)"

text \<open>Python's truth value of a value.\<close>

fun truthy :: "jval \<Rightarrow> bool" where
  "truthy JNull = False"
| "truthy (JBool b) = b"
| "truthy (JInt n) = (n \<noteq> 0)"
| "truthy (JStr s) = (s \<noteq> [])"
| "truthy (JList xs s) = (xs \<noteq> [])"
| "truthy (JOther t s) = t"

text \<open>\<^verbatim>\<open>a or b\<close>.\<close>

definition py_or :: "jval \<Rightarrow> jval \<Rightarrow> jval" where
  "py_or a b = (if truthy a then a else b)"

text \<open>
  \<^verbatim>\<open>isinstance(v, int)\<close> with the integer it stands for: \<^verbatim>\<open>bool\<close> is a subclass of
  \<^verbatim>\<open>int\<close> in Python, \<^verbatim>\<open>True\<close> is 1 and \<^verbatim>\<open>False\<close> is 0.
\<close>

fun py_int :: "jval \<Rightarrow> int option" where
  "py_int (JInt n) = Some n"
| "py_int (JBool b) = Some (if b then 1 else 0)"
| "py_int v = None"

definition is_int :: "jval \<Rightarrow> bool" where
  "is_int v = (py_int v \<noteq> None)"

subsection \<open>Strings\<close>

definition digit_char :: "nat \<Rightarrow> char" where
  "digit_char d = char_of (48 + d)"

fun digits :: "nat \<Rightarrow> string" where
  "digits n = (if n < 10 then [digit_char n] else digits (n div 10) @ [digit_char (n mod 10)])"

declare digits.simps [simp del]

definition str_int :: "int \<Rightarrow> string" where
  "str_int n = (if n < 0 then CHR ''-'' # digits (nat (- n)) else digits (nat n))"

text \<open>\<^verbatim>\<open>str(v)\<close>.\<close>

fun py_str :: "jval \<Rightarrow> string" where
  "py_str JNull = ''None''"
| "py_str (JBool b) = (if b then ''True'' else ''False'')"
| "py_str (JInt n) = str_int n"
| "py_str (JStr s) = s"
| "py_str (JList xs s) = s"
| "py_str (JOther t s) = s"

text \<open>
  \<^verbatim>\<open>str.isspace\<close> on one character below 256: tab to carriage return, the four
  separators 28 to 31, the blank, NEL (133) and the no-break space (160).
\<close>

definition is_space :: "char \<Rightarrow> bool" where
  "is_space c = (let n = (of_char c :: nat) in
     (9 \<le> n \<and> n \<le> 13) \<or> (28 \<le> n \<and> n \<le> 32) \<or> n = 133 \<or> n = 160)"

text \<open>\<^verbatim>\<open>s.strip()\<close>.\<close>

definition strip :: "string \<Rightarrow> string" where
  "strip s = rev (dropWhile is_space (rev (dropWhile is_space s)))"

text \<open>The key of a record: \<^verbatim>\<open>str(job.get("url") or "").strip()\<close>.\<close>

definition url_key :: "job \<Rightarrow> string" where
  "url_key j = strip (py_str (py_or (get j ''url'') (JStr [])))"

section \<open>Merging by URL\<close>

text \<open>
  \<^verbatim>\<open>merged\<close> is a Python \<^verbatim>\<open>dict\<close>: it keeps its keys in the order of their first
  insertion, and storing under a key that is there replaces the value in place. That is
  \<^const>\<open>AList.update\<close> on an association list.

  The function mutates the records it is given (it writes \<^verbatim>\<open>id\<close> and, in three of
  the scrapers, a default \<^verbatim>\<open>source\<close>). A record sits in \<^verbatim>\<open>merged\<close> under the one key
  its own \<^verbatim>\<open>url\<close> gives, and the writes never touch \<^verbatim>\<open>url\<close>; the write of \<^verbatim>\<open>id\<close> to
  a fresh record overwrites whatever it held. So the list returned holds the same values
  whether records are shared or not, and the model passes records by value.
\<close>

type_synonym merged = "(string \<times> job) list"

text \<open>First loop: the highest integer id in \<^verbatim>\<open>current\<close>, from 0.\<close>

fun scan_max_id :: "int \<Rightarrow> job list \<Rightarrow> int" where
  "scan_max_id max_id [] = max_id"
| "scan_max_id max_id (job # rest) =
     (case py_int (get job ''id'') of
        Some raw_id \<Rightarrow> if raw_id > max_id then scan_max_id raw_id rest else scan_max_id max_id rest
      | None \<Rightarrow> scan_max_id max_id rest)"

text \<open>
  Second loop: seed the map from \<^verbatim>\<open>current\<close>. \<open>keep\<close> is the language test of
  talent's merge (always true in the other three).
\<close>

fun seed :: "(job \<Rightarrow> bool) \<Rightarrow> merged \<Rightarrow> job list \<Rightarrow> merged" where
  "seed keep merged [] = merged"
| "seed keep merged (job # rest) =
     (let url = url_key job in
      if url = [] then seed keep merged rest
      else if \<not> keep job then seed keep merged rest
      else seed keep (AList.update url job merged) rest)"

text \<open>
  Third loop: overlay \<^verbatim>\<open>fresh\<close>. The test \<^verbatim>\<open>existing and isinstance(existing.get("id"), int)\<close>
  fails when the key is absent; an empty dict has no integer id, so the truth test on
  \<^verbatim>\<open>existing\<close> adds nothing else.
\<close>

definition has_id :: "job option \<Rightarrow> bool" where
  "has_id existing = (case existing of None \<Rightarrow> False | Some e \<Rightarrow> is_int (get e ''id''))"

fun overlay :: "(job \<Rightarrow> bool) \<Rightarrow> merged \<times> int \<Rightarrow> job list \<Rightarrow> merged \<times> int" where
  "overlay keep (merged, max_id) [] = (merged, max_id)"
| "overlay keep (merged, max_id) (job # rest) =
     (let url = url_key job in
      if url = [] then overlay keep (merged, max_id) rest
      else if \<not> keep job then overlay keep (merged, max_id) rest
      else
        let existing = map_of merged url in
        if has_id existing
        then overlay keep
               (AList.update url (job(''id'' \<mapsto> get (the existing) ''id'')) merged, max_id) rest
        else overlay keep
               (AList.update url (job(''id'' \<mapsto> JInt (max_id + 1))) merged, max_id + 1) rest)"

text \<open>\<^verbatim>\<open>row.setdefault("source", s)\<close>; jobup's merge has no such line (\<open>None\<close>).\<close>

definition setdefault_source :: "string option \<Rightarrow> job \<Rightarrow> job" where
  "setdefault_source src row =
     (case src of
        None \<Rightarrow> row
      | Some s \<Rightarrow> (case row ''source'' of None \<Rightarrow> row(''source'' \<mapsto> JStr s) | Some v \<Rightarrow> row))"

text \<open>Fourth loop, over \<^verbatim>\<open>merged.values()\<close> in the dict's order: an id for every record.\<close>

fun backfill :: "string option \<Rightarrow> int \<Rightarrow> merged \<Rightarrow> merged" where
  "backfill src max_id [] = []"
| "backfill src max_id ((url, row) # rest) =
     (let row1 = setdefault_source src row in
      if \<not> is_int (get row1 ''id'')
      then (url, row1(''id'' \<mapsto> JInt (max_id + 1))) # backfill src (max_id + 1) rest
      else (url, row1) # backfill src max_id rest)"

text \<open>
  The sort key \<^verbatim>\<open>int(job.get("id")) if isinstance(job.get("id"), int) else 0\<close>, and
  \<^verbatim>\<open>out.sort(key=..., reverse=True)\<close>: Python's sort is stable, also when reversed, so
  it is the stable sort on the negated key.
\<close>

definition sort_id :: "job \<Rightarrow> int" where
  "sort_id job = (case py_int (get job ''id'') of Some n \<Rightarrow> n | None \<Rightarrow> 0)"

definition sort_desc :: "job list \<Rightarrow> job list" where
  "sort_desc out = sort_key (\<lambda>job. - sort_id job) out"

text \<open>The dict after the four loops, and the function.\<close>

definition merge_dict :: "(job \<Rightarrow> bool) \<Rightarrow> string option \<Rightarrow> job list \<Rightarrow> job list \<Rightarrow> merged" where
  "merge_dict keep src current fresh =
     (let max_id = scan_max_id 0 current;
          merged = seed keep [] current;
          (merged, max_id) = overlay keep (merged, max_id) fresh
      in backfill src max_id merged)"

definition merge_core :: "(job \<Rightarrow> bool) \<Rightarrow> string option \<Rightarrow> job list \<Rightarrow> job list \<Rightarrow> job list" where
  "merge_core keep src current fresh = sort_desc (map snd (merge_dict keep src current fresh))"

section \<open>The language filter\<close>

text \<open>\<^verbatim>\<open>str.lower\<close> on one character below 256: A to Z, and the accented capitals 192 to
  222 but the multiplication sign 215, move up by 32.\<close>

definition lower_char :: "char \<Rightarrow> char" where
  "lower_char c = (let n = (of_char c :: nat) in
     if (65 \<le> n \<and> n \<le> 90) \<or> (192 \<le> n \<and> n \<le> 222 \<and> n \<noteq> 215) then char_of (n + 32) else c)"

definition lower :: "string \<Rightarrow> string" where
  "lower s = map lower_char s"

text \<open>
  \<^verbatim>\<open>re.findall\<close> of a repeated character class: the maximal runs of characters of the
  class, left to right. With \<^verbatim>\<open>{3,}\<close> a run shorter than 3 gives no match at its first
  character nor at a later one, and a longer run is matched whole (the repeat is greedy).
\<close>

function runs :: "(char \<Rightarrow> bool) \<Rightarrow> string \<Rightarrow> string list" where
  "runs P [] = []"
| "runs P (c # cs) =
     (if P c then takeWhile P (c # cs) # runs P (dropWhile P cs) else runs P cs)"
  by pat_completeness auto

termination runs
  by (relation "measure (\<lambda>(P, s). length s)")
     (auto simp: le_imp_less_Suc length_dropWhile_le)

definition findall3 :: "(char \<Rightarrow> bool) \<Rightarrow> string \<Rightarrow> string list" where
  "findall3 P text = filter (\<lambda>w. 3 \<le> length w) (runs P text)"

text \<open>jobroom's class \<^verbatim>\<open>[a-zA-Z]\<close>.\<close>

definition ascii_letter :: "char \<Rightarrow> bool" where
  "ascii_letter c = (let n = (of_char c :: nat) in (97 \<le> n \<and> n \<le> 122) \<or> (65 \<le> n \<and> n \<le> 90))"

text \<open>talent's class: a to z and sixteen accented letters below 256 (the class also has
  the ligature at code point 339, which no text of the model holds).\<close>

definition french_letter :: "char \<Rightarrow> bool" where
  "french_letter c = (let n = (of_char c :: nat) in
     (97 \<le> n \<and> n \<le> 122) \<or>
     n \<in> {224, 226, 231, 233, 232, 234, 235, 238, 239, 244, 251, 249, 252, 255, 241, 230})"

text \<open>\<^verbatim>\<open>len(tokens & HINTS)\<close>, the hint words listed without repetition.\<close>

definition overlap :: "string list \<Rightarrow> string list \<Rightarrow> nat" where
  "overlap tokens hints = length (filter (\<lambda>h. h \<in> set tokens) hints)"

text \<open>\<^verbatim>\<open>f"{title or ''} {description or ''}".lower()\<close>.\<close>

definition job_text :: "jval \<Rightarrow> jval \<Rightarrow> string" where
  "job_text title description =
     lower (py_str (py_or title (JStr [])) @ '' '' @ py_str (py_or description (JStr [])))"

subsection \<open>jobroom\<close>

definition jobroom_FR_HINTS :: "string list" where
  "jobroom_FR_HINTS =
     [''avec'', ''pour'', ''poste'', ''vous'', ''nous'', ''experience'', ''equipe'', ''mission'',
      ''competences'', ''formation'', ''travail'', ''emploi'', ''profil'', ''francais'',
      ''responsable'', ''gestion'', ''assurer'', ''recherche'', ''candidat'']"

definition jobroom_EN_HINTS :: "string list" where
  "jobroom_EN_HINTS =
     [''with'', ''for'', ''you'', ''team'', ''experience'', ''job'', ''position'', ''skills'',
      ''work'', ''english'']"

definition jobroom_DE_HINTS :: "string list" where
  "jobroom_DE_HINTS =
     [''mit'', ''fur'', ''sie'', ''erfahrung'', ''stelle'', ''aufgaben'', ''kenntnisse'',
      ''arbeit'', ''deutsch'']"

definition IT_HINTS :: "string list" where
  "IT_HINTS =
     [''con'', ''per'', ''lavoro'', ''posizione'', ''esperienza'', ''richiesto'', ''competenze'',
      ''squadra'']"

text \<open>The first test of \<^verbatim>\<open>is_french_job\<close>: \<^verbatim>\<open>language_codes\<close> is a list and one of
  its members reads \<^verbatim>\<open>fr\<close>.\<close>

definition tagged_french :: "job \<Rightarrow> bool" where
  "tagged_french row =
     (case get row ''language_codes'' of
        JList xs s \<Rightarrow> list_ex (\<lambda>x. lower (py_str x) = ''fr'') xs
      | _ \<Rightarrow> False)"

definition jobroom_tokens :: "job \<Rightarrow> string list" where
  "jobroom_tokens row =
     findall3 ascii_letter (job_text (get row ''title'') (get row ''description''))"

definition is_french_job :: "job \<Rightarrow> bool" where
  "is_french_job row =
     (if tagged_french row then True
      else
        let tokens = jobroom_tokens row;
            fr = overlap tokens jobroom_FR_HINTS;
            en = overlap tokens jobroom_EN_HINTS;
            de = overlap tokens jobroom_DE_HINTS;
            it = overlap tokens IT_HINTS
        in fr \<ge> 2 \<and> fr \<ge> max en (max de it))"

subsection \<open>talent\<close>

definition talent_FR_HINTS :: "string list" where
  "talent_FR_HINTS =
     [''avec'', ''pour'', ''poste'', ''vous'', ''nous'', ''experience'',
      ''exp'' @ [CHR 0xE9] @ ''rience'', ''equipe'', [CHR 0xE9] @ ''quipe'', ''mission'',
      ''competences'', ''comp'' @ [CHR 0xE9] @ ''tences'', ''formation'', ''travail'',
      ''emploi'', ''profil'', ''francais'', ''fran'' @ [CHR 0xE7] @ ''ais'', ''responsable'',
      ''gestion'', ''assurer'', ''recherche'', ''candidat'']"

definition talent_EN_HINTS :: "string list" where
  "talent_EN_HINTS =
     [''with'', ''for'', ''you'', ''team'', ''experience'', ''job'', ''position'', ''skills'',
      ''work'', ''english'', ''required'']"

definition talent_DE_HINTS :: "string list" where
  "talent_DE_HINTS =
     [''mit'', ''f'' @ [CHR 0xFC] @ ''r'', ''sie'', ''erfahrung'', ''stelle'', ''aufgaben'',
      ''kenntnisse'', ''arbeit'', ''deutsch'']"

definition talent_tokens :: "jval \<Rightarrow> jval \<Rightarrow> string list" where
  "talent_tokens title description = findall3 french_letter (job_text title description)"

text \<open>\<^verbatim>\<open>_is_allowed_language\<close> (a name cannot start with an underscore here).\<close>

definition is_allowed_language :: "jval \<Rightarrow> jval \<Rightarrow> bool" where
  "is_allowed_language title description =
     (let tokens = talent_tokens title description;
          fr = overlap tokens talent_FR_HINTS;
          en = overlap tokens talent_EN_HINTS;
          de = overlap tokens talent_DE_HINTS;
          it = overlap tokens IT_HINTS
      in (fr \<ge> 2 \<or> en \<ge> 2) \<and> max fr en \<ge> max de it)"

section \<open>The four merges\<close>

definition jobup_merge_jobs_by_url :: "job list \<Rightarrow> job list \<Rightarrow> job list" where
  "jobup_merge_jobs_by_url current fresh = merge_core (\<lambda>job. True) None current fresh"

definition ge_merge_jobs_by_url :: "job list \<Rightarrow> job list \<Rightarrow> job list" where
  "ge_merge_jobs_by_url current fresh = merge_core (\<lambda>row. True) (Some ''ge'') current fresh"

definition jobroom_merge_jobs_by_url :: "job list \<Rightarrow> job list \<Rightarrow> job list" where
  "jobroom_merge_jobs_by_url current fresh =
     merge_core (\<lambda>row. True) (Some ''jobroom'') current fresh"

text \<open>talent's merge skips, in both lists, a row for which
  \<^verbatim>\<open>filter_lang and not _is_allowed_language(row.get("title"), row.get("description"))\<close>.\<close>

definition talent_keep :: "bool \<Rightarrow> job \<Rightarrow> bool" where
  "talent_keep filter_lang row =
     (\<not> (filter_lang \<and> \<not> is_allowed_language (get row ''title'') (get row ''description'')))"

definition talent_merge_jobs_by_url :: "job list \<Rightarrow> job list \<Rightarrow> bool \<Rightarrow> job list" where
  "talent_merge_jobs_by_url current fresh filter_lang =
     merge_core (talent_keep filter_lang) (Some ''talent'') current fresh"

section \<open>The date window\<close>

text \<open>
  \<^verbatim>\<open>within_days(posting_date, max_days)\<close>, the same function in the four scrapers. The
  date is a string or \<^verbatim>\<open>None\<close>, the window an integer or \<^verbatim>\<open>None\<close>. Parsing is not
  modelled: \<open>fromisoformat\<close> stands for \<^verbatim>\<open>datetime.fromisoformat(s).date()\<close> and gives the
  day as a day number, or \<open>None\<close> where Python raises \<^verbatim>\<open>ValueError\<close>; \<open>today\<close> is the day
  number of \<^verbatim>\<open>date.today()\<close>. The difference of two dates in days is the difference of
  their day numbers.
\<close>

definition within_days ::
  "(string \<Rightarrow> int option) \<Rightarrow> int \<Rightarrow> string option \<Rightarrow> int option \<Rightarrow> bool" where
  "within_days fromisoformat today posting_date max_days =
     (case max_days of
        None \<Rightarrow> True
      | Some n \<Rightarrow>
          (case posting_date of
             None \<Rightarrow> False
           | Some s \<Rightarrow>
               if s = [] then False
               else
                 (case fromisoformat s of
                    None \<Rightarrow> False
                  | Some day \<Rightarrow> let age = today - day in 0 \<le> age \<and> age \<le> n)))"

section \<open>Crawling the result pages\<close>

text \<open>
  The network is a function from the page asked for to what \<^verbatim>\<open>session.get\<close> gives: a
  response with its status code and text, or an exception of \<^verbatim>\<open>requests\<close>. Reading
  the links and the page count off the HTML is not modelled: \<open>extract_detail_links\<close> and
  \<open>extract_total_pages\<close> are given with the site.
\<close>

datatype exn = RequestException | HTTPError nat

datatype response = Response nat string

record site =
  session_get :: "int \<Rightarrow> exn + response"
  extract_detail_links :: "string \<Rightarrow> string list"
  extract_total_pages :: "string \<Rightarrow> int option"

text \<open>
  The variables of the crawl of jobup and talent, and the pages asked for so far, in
  order.
\<close>

record crawl =
  links :: "string list"
  seen_links :: "string set"
  known_streak :: int
  requested :: "int list"

definition crawl_init :: crawl where
  "crawl_init = \<lparr>links = [], seen_links = {}, known_streak = 0, requested = []\<rparr>"

text \<open>Page 1: \<^verbatim>\<open>for link in page1_links: if link not in seen_links: ...\<close>.\<close>

fun add_page1_links :: "crawl \<Rightarrow> string list \<Rightarrow> crawl" where
  "add_page1_links st [] = st"
| "add_page1_links st (link # rest) =
     (if link \<notin> seen_links st
      then add_page1_links
             (st\<lparr>seen_links := insert link (seen_links st), links := links st @ [link]\<rparr>) rest
      else add_page1_links st rest)"

text \<open>
  The loop over the links of a later page, the same in both loops of jobup and in talent.
  It ends at the end of the list or at its \<^verbatim>\<open>break\<close>.
\<close>

fun scan_links :: "int \<Rightarrow> string set \<Rightarrow> crawl \<Rightarrow> string list \<Rightarrow> crawl" where
  "scan_links stop_after_seen known st [] = st"
| "scan_links stop_after_seen known st (link # rest) =
     (if link \<in> seen_links st then scan_links stop_after_seen known st rest
      else
        let st1 = st\<lparr>seen_links := insert link (seen_links st), links := links st @ [link]\<rparr> in
        if stop_after_seen > 0 then
          if link \<in> known then
            let st2 = st1\<lparr>known_streak := known_streak st1 + 1\<rparr> in
            if known_streak st2 \<ge> stop_after_seen then st2
            else scan_links stop_after_seen known st2 rest
          else scan_links stop_after_seen known (st1\<lparr>known_streak := 0\<rparr>) rest
        else scan_links stop_after_seen known st1 rest)"

subsection \<open>jobup\<close>

text \<open>\<^verbatim>\<open>fetch_search_page\<close>, from what \<^verbatim>\<open>session.get(url)\<close> gives.\<close>

definition fetch_search_page :: "exn + response \<Rightarrow> string option \<times> bool" where
  "fetch_search_page r =
     (case r of
        Inl exc \<Rightarrow> (None, True)
      | Inr (Response status_code text) \<Rightarrow>
          if status_code = 403 \<or> status_code = 429 then (None, True)
          else if status_code \<ge> 400 then (None, True)
          else (Some text, False))"

text \<open>The loop over the pages 2 to \<open>total_pages\<close> when page 1 gave a page count.\<close>

fun jobup_pages_detected :: "site \<Rightarrow> int \<Rightarrow> string set \<Rightarrow> crawl \<Rightarrow> int list \<Rightarrow> crawl" where
  "jobup_pages_detected s stop_after_seen known st [] = st"
| "jobup_pages_detected s stop_after_seen known st (page # rest) =
     (let st0 = st\<lparr>requested := requested st @ [page]\<rparr>;
          (page_html, should_stop) = fetch_search_page (session_get s page)
      in
      if should_stop then st0
      else if page_html = None \<or> page_html = Some [] then st0
      else
        let page_links = extract_detail_links s (the page_html);
            st1 = scan_links stop_after_seen known st0 page_links
        in
        if stop_after_seen > 0 \<and> known_streak st1 \<ge> stop_after_seen then st1
        else jobup_pages_detected s stop_after_seen known st1 rest)"

text \<open>The loop over the pages 2 to \<open>max_dynamic_pages\<close> when it gave none.\<close>

fun jobup_pages_dynamic :: "site \<Rightarrow> int \<Rightarrow> string set \<Rightarrow> crawl \<Rightarrow> int list \<Rightarrow> crawl" where
  "jobup_pages_dynamic s stop_after_seen known st [] = st"
| "jobup_pages_dynamic s stop_after_seen known st (page # rest) =
     (let st0 = st\<lparr>requested := requested st @ [page]\<rparr>;
          (page_html, should_stop) = fetch_search_page (session_get s page)
      in
      if should_stop then st0
      else if page_html = None \<or> page_html = Some [] then st0
      else
        let page_links = extract_detail_links s (the page_html) in
        if page_links = [] then st0
        else
          let st1 = scan_links stop_after_seen known st0 page_links in
          if stop_after_seen > 0 \<and> known_streak st1 \<ge> stop_after_seen then st1
          else jobup_pages_dynamic s stop_after_seen known st1 rest)"

text \<open>The HTML of page 1 in \<^verbatim>\<open>main\<close>: empty on a failure.\<close>

definition jobup_page1_html :: "exn + response \<Rightarrow> string" where
  "jobup_page1_html r =
     (case r of
        Inl exc \<Rightarrow> []
      | Inr (Response status_code text) \<Rightarrow>
          if status_code = 403 \<or> status_code = 429 then []
          else if status_code \<ge> 400 then []
          else text)"

text \<open>
  The crawl of \<^verbatim>\<open>main\<close>, from the request of page 1 to the end of the page loop.
  \<open>known\<close> is \<^verbatim>\<open>combined_known\<close>.
\<close>

definition jobup_crawl :: "site \<Rightarrow> int \<Rightarrow> int \<Rightarrow> string set \<Rightarrow> crawl" where
  "jobup_crawl s max_pages stop_after_seen known =
     (let html = jobup_page1_html (session_get s 1);
          total_pages =
            (case extract_total_pages s html of
               None \<Rightarrow> None
             | Some t \<Rightarrow> if max_pages > 0 then Some (min t max_pages) else Some t);
          page1_links = (if html \<noteq> [] then extract_detail_links s html else []);
          st = add_page1_links (crawl_init\<lparr>requested := [1]\<rparr>) page1_links
      in
      case total_pages of
        Some t \<Rightarrow> jobup_pages_detected s stop_after_seen known st [2..t]
      | None \<Rightarrow>
          let max_dynamic_pages = (if max_pages > 0 then max_pages else 200) in
          jobup_pages_dynamic s stop_after_seen known st [2..max_dynamic_pages])"

subsection \<open>talent\<close>

text \<open>\<^verbatim>\<open>Response.raise_for_status\<close>: an \<^verbatim>\<open>HTTPError\<close> for a status from 400 to 599.\<close>

definition raise_for_status :: "response \<Rightarrow> exn + unit" where
  "raise_for_status r =
     (case r of Response status_code text \<Rightarrow>
        if 400 \<le> status_code \<and> status_code < 600 then Inl (HTTPError status_code) else Inr ())"

text \<open>
  \<^verbatim>\<open>session.get(url)\<close> followed by \<^verbatim>\<open>raise_for_status()\<close>, neither inside a \<^verbatim>\<open>try\<close>:
  the text of the page, or the exception that leaves \<^verbatim>\<open>main\<close>.
\<close>

definition talent_get :: "site \<Rightarrow> int \<Rightarrow> exn + string" where
  "talent_get s page =
     (case session_get s page of
        Inl exc \<Rightarrow> Inl exc
      | Inr r \<Rightarrow>
          (case raise_for_status r of
             Inl exc \<Rightarrow> Inl exc
           | Inr u \<Rightarrow> (case r of Response status_code text \<Rightarrow> Inr text)))"

fun talent_pages :: "site \<Rightarrow> int \<Rightarrow> string set \<Rightarrow> crawl \<Rightarrow> int list \<Rightarrow> exn + crawl" where
  "talent_pages s stop_after_seen known st [] = Inr st"
| "talent_pages s stop_after_seen known st (page # rest) =
     (let st0 = st\<lparr>requested := requested st @ [page]\<rparr> in
      case talent_get s page of
        Inl exc \<Rightarrow> Inl exc
      | Inr text \<Rightarrow>
          let page_links = extract_detail_links s text in
          if page_links = [] then Inr st0
          else
            let st1 = scan_links stop_after_seen known st0 page_links in
            if stop_after_seen > 0 \<and> known_streak st1 \<ge> stop_after_seen then Inr st1
            else talent_pages s stop_after_seen known st1 rest)"

definition talent_crawl :: "site \<Rightarrow> int \<Rightarrow> int \<Rightarrow> string set \<Rightarrow> exn + crawl" where
  "talent_crawl s max_pages stop_after_seen known_urls =
     (case talent_get s 1 of
        Inl exc \<Rightarrow> Inl exc
      | Inr html \<Rightarrow>
          let st = add_page1_links (crawl_init\<lparr>requested := [1]\<rparr>) (extract_detail_links s html);
              max_dyn = (if max_pages > 0 then max_pages else 200)
          in talent_pages s stop_after_seen known_urls st [2..max_dyn])"

subsection \<open>jobroom\<close>

text \<open>
  jobroom asks an API: \<^verbatim>\<open>search_page\<close> gives the rows of a page and the total the API
  reports (if it is an integer), or raises. The rows are taken as \<^verbatim>\<open>normalize\<close> leaves
  them, one for each raw row; their \<^verbatim>\<open>posting_date\<close> is a string or \<^verbatim>\<open>None\<close>.
\<close>

type_synonym api = "int \<Rightarrow> exn + (job list \<times> int option)"

text \<open>The arguments of the command line that the loop reads.\<close>

record jobroom_args =
  args_max_pages :: int
  args_max_jobs :: int
  args_stop_after_seen :: int
  args_days :: int
  args_allow_non_french :: bool

text \<open>\<^verbatim>\<open>max_days = args.days if args.days and args.days > 0 else None\<close>.\<close>

definition max_days_of :: "jobroom_args \<Rightarrow> int option" where
  "max_days_of a = (if args_days a > 0 then Some (args_days a) else None)"

record jobroom_state =
  fresh_jobs :: "job list"
  all_page_urls :: "string list"
  seen_streak :: int
  total_api_known :: "int option"
  searched :: "int list"

definition jobroom_init :: jobroom_state where
  "jobroom_init =
     \<lparr>fresh_jobs = [], all_page_urls = [], seen_streak = 0, total_api_known = None,
      searched = []\<rparr>"

text \<open>\<^verbatim>\<open>row.get("posting_date")\<close>, which the scrapers fill with a string or \<^verbatim>\<open>None\<close>; any
  other value is read as \<^verbatim>\<open>None\<close>.\<close>

definition posting_date_of :: "job \<Rightarrow> string option" where
  "posting_date_of row = (case get row ''posting_date'' of JStr s \<Rightarrow> Some s | _ \<Rightarrow> None)"

text \<open>The loop over the rows of one page.\<close>

fun scan_rows ::
  "jobroom_args \<Rightarrow> (string \<Rightarrow> int option) \<Rightarrow> int \<Rightarrow> string set \<Rightarrow> jobroom_state \<Rightarrow> job list
     \<Rightarrow> jobroom_state" where
  "scan_rows a fromisoformat today known_urls st [] = st"
| "scan_rows a fromisoformat today known_urls st (row # rest) =
     (let url = url_key row in
      if url = [] then scan_rows a fromisoformat today known_urls st rest
      else
        let st1 = st\<lparr>all_page_urls := all_page_urls st @ [url]\<rparr>;
            st2 =
              (if args_stop_after_seen a > 0
               then if url \<in> known_urls then st1\<lparr>seen_streak := seen_streak st1 + 1\<rparr>
                    else st1\<lparr>seen_streak := 0\<rparr>
               else st1)
        in
        if args_stop_after_seen a > 0 \<and> url \<in> known_urls \<and> seen_streak st2 \<ge> args_stop_after_seen a
        then st2
        else if url \<in> known_urls then scan_rows a fromisoformat today known_urls st2 rest
        else if \<not> args_allow_non_french a \<and> \<not> is_french_job row
        then scan_rows a fromisoformat today known_urls st2 rest
        else if \<not> within_days fromisoformat today (posting_date_of row) (max_days_of a)
        then scan_rows a fromisoformat today known_urls st2 rest
        else
          let st3 = st2\<lparr>fresh_jobs := fresh_jobs st2 @ [row]\<rparr> in
          if args_max_jobs a > 0 \<and> int (length (fresh_jobs st3)) \<ge> args_max_jobs a then st3
          else scan_rows a fromisoformat today known_urls st3 rest)"

text \<open>
  The \<^verbatim>\<open>while True\<close> loop over the pages, from page 0. Nothing bounds it when the API
  goes on giving full pages, so it is a partial function: \<open>None\<close> is the run that does
  not end.
\<close>

partial_function (option) jobroom_pages ::
  "jobroom_args \<Rightarrow> (string \<Rightarrow> int option) \<Rightarrow> int \<Rightarrow> api \<Rightarrow> string set \<Rightarrow> int \<Rightarrow> jobroom_state
     \<Rightarrow> jobroom_state option" where
  "jobroom_pages a fromisoformat today search_page known_urls page st =
     (if args_max_pages a > 0 \<and> page \<ge> args_max_pages a then Some st
      else
        case search_page page of
          Inl exc \<Rightarrow> Some (st\<lparr>searched := searched st @ [page]\<rparr>)
        | Inr (raw_rows, total_api) \<Rightarrow>
            let st0 = st\<lparr>searched := searched st @ [page],
                         total_api_known :=
                           (if total_api_known st = None then total_api else total_api_known st)\<rparr>
            in
            if raw_rows = [] then Some st0
            else
              let st1 = scan_rows a fromisoformat today known_urls st0 raw_rows in
              if args_stop_after_seen a > 0 \<and> seen_streak st1 \<ge> args_stop_after_seen a then Some st1
              else if args_max_jobs a > 0 \<and> int (length (fresh_jobs st1)) \<ge> args_max_jobs a then Some st1
              else if (case total_api_known st1 of
                         Some t \<Rightarrow> (page + 1) * 25 \<ge> t | None \<Rightarrow> False)
              then Some st1
              else if length raw_rows < 25 then Some st1
              else jobroom_pages a fromisoformat today search_page known_urls (page + 1) st1)"

section \<open>What a run loads and what it saves\<close>

text \<open>The non-empty canonical URLs of a list of records.\<close>

definition urls_of :: "job list \<Rightarrow> string set" where
  "urls_of jobs = set (filter (\<lambda>u. u \<noteq> []) (map url_key jobs))"

text \<open>
  \<^verbatim>\<open>known_urls\<close> at the start of \<^verbatim>\<open>main\<close>, the same in the scrapers: the URLs of the
  output dataset of the last run, and those of \<^verbatim>\<open>seen_urls\<close> in the state file if that
  is a list. \<open>auto_state\<close> is the dict \<^verbatim>\<open>load_state\<close> returns.
\<close>

definition load_known_urls :: "job list \<Rightarrow> job \<Rightarrow> string set" where
  "load_known_urls existing_jobs auto_state =
     urls_of existing_jobs \<union>
     (case get auto_state ''seen_urls'' of
        JList state_urls s \<Rightarrow> set (filter (\<lambda>u. u \<noteq> []) (map (\<lambda>u. strip (py_str u)) state_urls))
      | _ \<Rightarrow> {})"

text \<open>The two files a run writes: \<^verbatim>\<open>seen_urls\<close> of the state file, and the output
  dataset.\<close>

record saved =
  seen_urls :: "string list"
  output_json :: "job list"

text \<open>
  The end of jobup's \<^verbatim>\<open>main\<close>, from the merge on. In the legacy incremental mode the
  master file and its state file are written as well; they are left out.
\<close>

definition jobup_finish ::
  "(string \<Rightarrow> int option) \<Rightarrow> int \<Rightarrow> bool \<Rightarrow> int option \<Rightarrow> string set \<Rightarrow> job list \<Rightarrow> job list
     \<Rightarrow> string list \<Rightarrow> job list \<Rightarrow> saved" where
  "jobup_finish fromisoformat today incremental max_days known_urls existing_jobs master_jobs
       unique_links fetched_jobs =
     (let base_jobs =
            (if incremental
             then jobup_merge_jobs_by_url existing_jobs
                    (jobup_merge_jobs_by_url master_jobs fetched_jobs)
             else jobup_merge_jobs_by_url existing_jobs fetched_jobs);
          seen_now = known_urls \<union> set unique_links \<union> urls_of base_jobs;
          filtered_jobs =
            filter (\<lambda>job. within_days fromisoformat today (posting_date_of job) max_days)
              base_jobs
      in \<lparr>seen_urls = sorted_list_of_set seen_now, output_json = filtered_jobs\<rparr>)"


section \<open>The runs of jobup and talent\<close>

text \<open>
  \<^verbatim>\<open>fetch_detail\<close> gives the record of a link, or raises; the loop over the links skips a
  link whose fetch raises. Here it gives \<open>None\<close> where it raises.
\<close>

definition fetch_details :: "(string \<Rightarrow> job option) \<Rightarrow> string list \<Rightarrow> job list" where
  "fetch_details fetch_detail detail_links = List.map_filter fetch_detail detail_links"

text \<open>\<^verbatim>\<open>detail_links[: args.max_jobs]\<close> when \<^verbatim>\<open>args.max_jobs\<close> is positive.\<close>

definition limit_jobs :: "int \<Rightarrow> string list \<Rightarrow> string list" where
  "limit_jobs arg_max_jobs detail_links =
     (if arg_max_jobs > 0 then take (nat arg_max_jobs) detail_links else detail_links)"

text \<open>
  jobup's \<^verbatim>\<open>main\<close>. \<open>master_file\<close> and \<open>state_file\<close> are what the legacy incremental mode
  loads. No exception of the search pages leaves it: the result is what it saves.
\<close>

definition jobup_main ::
  "site \<Rightarrow> (string \<Rightarrow> job option) \<Rightarrow> (string \<Rightarrow> int option) \<Rightarrow> int \<Rightarrow> int \<Rightarrow> int \<Rightarrow> int \<Rightarrow> bool
     \<Rightarrow> int \<Rightarrow> job list \<Rightarrow> job \<Rightarrow> job list \<Rightarrow> job \<Rightarrow> saved" where
  "jobup_main s fetch_detail fromisoformat today arg_max_pages arg_max_jobs arg_days
       arg_incremental arg_stop_after_seen existing_jobs auto_state master_file state_file =
     (let known_urls = load_known_urls existing_jobs auto_state;
          master_jobs = (if arg_incremental then master_file else []);
          known_urls_state =
            (if arg_incremental then load_known_urls master_jobs state_file else {});
          combined_known = known_urls \<union> known_urls_state;
          st = jobup_crawl s arg_max_pages arg_stop_after_seen combined_known;
          unique_links = links st;
          detail_links = limit_jobs arg_max_jobs (filter (\<lambda>u. u \<notin> known_urls) unique_links);
          md = (if arg_days > 0 then Some arg_days else None);
          fetched_jobs = fetch_details fetch_detail detail_links
      in jobup_finish fromisoformat today arg_incremental md known_urls existing_jobs
           master_jobs unique_links fetched_jobs)"

text \<open>The end of talent's \<^verbatim>\<open>main\<close>, from the details on.\<close>

definition talent_finish ::
  "(string \<Rightarrow> job option) \<Rightarrow> (string \<Rightarrow> int option) \<Rightarrow> int \<Rightarrow> int \<Rightarrow> int option \<Rightarrow> bool
     \<Rightarrow> string set \<Rightarrow> job list \<Rightarrow> crawl \<Rightarrow> saved" where
  "talent_finish fetch_detail fromisoformat today arg_max_jobs md filter_lang known_urls
       existing_jobs st =
     (let detail_links = limit_jobs arg_max_jobs (filter (\<lambda>u. u \<notin> known_urls) (links st));
          fresh =
            filter (\<lambda>job. within_days fromisoformat today (posting_date_of job) md)
              (fetch_details fetch_detail detail_links);
          merged = talent_merge_jobs_by_url existing_jobs fresh filter_lang;
          seen_now = known_urls \<union> set (links st) \<union> urls_of merged
      in \<lparr>seen_urls = sorted_list_of_set seen_now, output_json = merged\<rparr>)"

text \<open>
  talent's \<^verbatim>\<open>main\<close>: what it saves, or the exception that leaves it, with nothing
  saved (the two files are written at the end).
\<close>

definition talent_main ::
  "site \<Rightarrow> (string \<Rightarrow> job option) \<Rightarrow> (string \<Rightarrow> int option) \<Rightarrow> int \<Rightarrow> int \<Rightarrow> int \<Rightarrow> int \<Rightarrow> int
     \<Rightarrow> bool \<Rightarrow> job list \<Rightarrow> job \<Rightarrow> exn + saved" where
  "talent_main s fetch_detail fromisoformat today arg_max_pages arg_max_jobs arg_days
       arg_stop_after_seen arg_allow_non_french existing_jobs auto_state =
     (let known_urls = load_known_urls existing_jobs auto_state in
      case talent_crawl s arg_max_pages arg_stop_after_seen known_urls of
        Inl exc \<Rightarrow> Inl exc
      | Inr st \<Rightarrow>
          let md = (if arg_days > 0 then Some arg_days else None);
              filter_lang = (\<not> arg_allow_non_french)
          in Inr (talent_finish fetch_detail fromisoformat today arg_max_jobs md filter_lang
                    known_urls existing_jobs st))"

section \<open>Predicates of the statements and of their proofs\<close>

text \<open>
  A positive integer proper (a boolean is an \<^verbatim>\<open>int\<close> for Python but is not counted
  here).
\<close>

definition pos_id :: "jval \<Rightarrow> bool" where
  "pos_id v = (case v of JInt n \<Rightarrow> 0 < n | _ \<Rightarrow> False)"

text \<open>
  What earlier merges leave in a dataset: an id that is an integer is a positive integer
  proper, and two records with the same integer id have the same key.
\<close>

definition ids_valid :: "job list \<Rightarrow> bool" where
  "ids_valid current \<longleftrightarrow>
     (\<forall>r \<in> set current. is_int (get r ''id'') \<longrightarrow> pos_id (get r ''id'')) \<and>
     (\<forall>r \<in> set current. \<forall>s \<in> set current.
        is_int (get r ''id'') \<and> get r ''id'' = get s ''id'' \<longrightarrow> url_key r = url_key s)"

text \<open>One record per key, and one positive integer id per record.\<close>

definition unique_urls_ids :: "job list \<Rightarrow> bool" where
  "unique_urls_ids out \<longleftrightarrow>
     distinct (map url_key out) \<and>
     distinct (map (\<lambda>j. get j ''id'') out) \<and>
     list_all (\<lambda>j. pos_id (get j ''id'')) out"

text \<open>The \<^verbatim>\<open>url\<close> field is missing, \<^verbatim>\<open>None\<close>, or a string of white space only.\<close>

definition blank_url :: "job \<Rightarrow> bool" where
  "blank_url r =
     (case r ''url'' of
        None \<Rightarrow> True
      | Some JNull \<Rightarrow> True
      | Some (JStr s) \<Rightarrow> list_all is_space s
      | Some v \<Rightarrow> False)"

text \<open>Every record of \<open>out\<close> whose key no record of \<open>current\<close> has carries an integer id
  above \<open>n\<close>.\<close>

definition new_ids_above :: "int \<Rightarrow> job list \<Rightarrow> job list \<Rightarrow> bool" where
  "new_ids_above n current out =
     list_all (\<lambda>j. url_key j \<in> url_key ` set current \<or>
                  (case get j ''id'' of JInt m \<Rightarrow> n < m | _ \<Rightarrow> False)) out"

text \<open>Every record of \<open>fresh\<close> with a non-empty key that no record of \<open>current\<close> has is
  in \<open>out\<close> under that key, with an integer id above \<open>n\<close>.\<close>

definition new_urls_stored :: "int \<Rightarrow> job list \<Rightarrow> job list \<Rightarrow> job list \<Rightarrow> bool" where
  "new_urls_stored n current fresh out =
     list_all (\<lambda>f. url_key f = [] \<or> url_key f \<in> url_key ` set current \<or>
                  list_ex (\<lambda>j. url_key j = url_key f \<and>
                                (case get j ''id'' of JInt m \<Rightarrow> n < m | _ \<Rightarrow> False)) out)
       fresh"

text \<open>
  The dict of the merge at any moment: its keys are distinct, and a record sits under its
  own key, which is not empty, and passes the language test.
\<close>

definition keyed :: "(job \<Rightarrow> bool) \<Rightarrow> merged \<Rightarrow> bool" where
  "keyed keep D \<longleftrightarrow>
     distinct (map fst D) \<and> (\<forall>(k, j) \<in> set D. url_key j = k \<and> k \<noteq> [] \<and> keep j)"

text \<open>The language test reads neither \<^verbatim>\<open>id\<close> nor \<^verbatim>\<open>source\<close>.\<close>

definition id_stable :: "(job \<Rightarrow> bool) \<Rightarrow> bool" where
  "id_stable keep \<longleftrightarrow>
     (\<forall>r v. keep (r(''id'' \<mapsto> v)) = keep r) \<and> (\<forall>r v. keep (r(''source'' \<mapsto> v)) = keep r)"

text \<open>What the fourth loop does to one record, the counter being at least \<open>m\<close>.\<close>

definition filled :: "string option \<Rightarrow> int \<Rightarrow> job \<Rightarrow> job \<Rightarrow> bool" where
  "filled src m j j1 \<longleftrightarrow>
     (is_int (get j ''id'') \<and> j1 = setdefault_source src j) \<or>
     (\<not> is_int (get j ''id'') \<and> (\<exists>n. m < n \<and> j1 = (setdefault_source src j)(''id'' \<mapsto> JInt n)))"

text \<open>The integer ids of the dict are positive, at most the counter, and one per key.\<close>

definition ids_ok :: "merged \<Rightarrow> int \<Rightarrow> bool" where
  "ids_ok D m \<longleftrightarrow>
     (\<forall>k j. (k, j) \<in> set D \<longrightarrow> is_int (get j ''id'') \<longrightarrow>
        (\<exists>n. get j ''id'' = JInt n \<and> 0 < n \<and> n \<le> m)) \<and>
     (\<forall>k j k' j'. (k, j) \<in> set D \<longrightarrow> (k', j') \<in> set D \<longrightarrow>
        is_int (get j ''id'') \<longrightarrow> get j ''id'' = get j' ''id'' \<longrightarrow> k = k')"

text \<open>After the fourth loop every record has a positive integer id, one per key.\<close>

definition ids_fin :: "merged \<Rightarrow> bool" where
  "ids_fin D \<longleftrightarrow>
     (\<forall>k j. (k, j) \<in> set D \<longrightarrow> (\<exists>n. get j ''id'' = JInt n \<and> 0 < n)) \<and>
     (\<forall>k j k' j'. (k, j) \<in> set D \<longrightarrow> (k', j') \<in> set D \<longrightarrow>
        get j ''id'' = get j' ''id'' \<longrightarrow> k = k')"

text \<open>Every record under a key outside \<open>K\<close> has an integer id above \<open>m0\<close>.\<close>

definition above :: "string set \<Rightarrow> int \<Rightarrow> merged \<Rightarrow> bool" where
  "above K m0 D \<longleftrightarrow>
     (\<forall>k j. (k, j) \<in> set D \<longrightarrow> k \<notin> K \<longrightarrow> (\<exists>n. get j ''id'' = JInt n \<and> m0 < n))"

text \<open>The outputs of the four merges on one input, talent's with its filter on and off.\<close>

definition merge_outputs :: "job list \<Rightarrow> job list \<Rightarrow> job list list" where
  "merge_outputs current fresh =
     [jobup_merge_jobs_by_url current fresh,
      ge_merge_jobs_by_url current fresh,
      jobroom_merge_jobs_by_url current fresh,
      talent_merge_jobs_by_url current fresh True,
      talent_merge_jobs_by_url current fresh False]"

text \<open>
  The tokens in the words of the specification: a token is a maximal run of letters of
  the text (no letter stands right before it nor right after it) of length at least 3.
\<close>

definition maximal_run :: "(char \<Rightarrow> bool) \<Rightarrow> string \<Rightarrow> string \<Rightarrow> bool" where
  "maximal_run letter text w \<longleftrightarrow>
     w \<noteq> [] \<and> list_all letter w \<and>
     (\<exists>pre post. text = pre @ w @ post \<and>
        \<not> (pre \<noteq> [] \<and> letter (last pre)) \<and> \<not> (post \<noteq> [] \<and> letter (hd post)))"

definition spec_tokens :: "(char \<Rightarrow> bool) \<Rightarrow> string \<Rightarrow> string set" where
  "spec_tokens letter text = {w. 3 \<le> length w \<and> maximal_run letter text w}"

text \<open>
  The rule of the counts in the words of the specification: the overlap count of a
  language is the number of its hint words among the tokens; the target language's count
  is at least 2 and at least the count of every other candidate language.
\<close>

definition spec_accepts :: "string set \<Rightarrow> string set \<Rightarrow> string set list \<Rightarrow> bool" where
  "spec_accepts tokens target others \<longleftrightarrow>
     2 \<le> card (tokens \<inter> target) \<and>
     list_all (\<lambda>hints. card (tokens \<inter> hints) \<le> card (tokens \<inter> target)) others"

section \<open>Predicates on the crawl\<close>

text \<open>The page was fetched with a status below 400 and no link was read off it.\<close>

definition zero_links :: "site \<Rightarrow> int \<Rightarrow> bool" where
  "zero_links s page =
     (case session_get s page of
        Inl exc \<Rightarrow> False
      | Inr (Response status_code html) \<Rightarrow>
          status_code < 400 \<and> extract_detail_links s html = [])"

text \<open>None of the pages asked for but the last had zero links.\<close>

definition stops_at_zero_links :: "site \<Rightarrow> int list \<Rightarrow> bool" where
  "stops_at_zero_links s pages = list_all (\<lambda>page. \<not> zero_links s page) (butlast pages)"

text \<open>The search page raises in \<^verbatim>\<open>session.get\<close>, or answers with a status from 400 to
  599.\<close>

definition fetch_fails :: "site \<Rightarrow> int \<Rightarrow> bool" where
  "fetch_fails s page =
     (case session_get s page of
        Inl exc \<Rightarrow> True
      | Inr (Response status_code html) \<Rightarrow> 400 \<le> status_code \<and> status_code < 600)"

text \<open>The crawl after the links \<open>ks\<close>, all known, were appended.\<close>

definition stopped_after :: "crawl \<Rightarrow> string list \<Rightarrow> crawl" where
  "stopped_after st ks =
     st\<lparr>seen_links := seen_links st \<union> set ks, links := links st @ ks,
        known_streak := known_streak st + int (length ks)\<rparr>"

text \<open>Three different links, all known and none seen in this run.\<close>

definition three_known :: "string set \<Rightarrow> string set \<Rightarrow> string list \<Rightarrow> bool" where
  "three_known known seen ks \<longleftrightarrow>
     length ks = 3 \<and> distinct ks \<and> list_all (\<lambda>k. k \<in> known \<and> k \<notin> seen) ks"

text \<open>Rows with a URL, all known.\<close>

definition known_rows :: "string set \<Rightarrow> job list \<Rightarrow> bool" where
  "known_rows known rows = list_all (\<lambda>row. url_key row \<noteq> [] \<and> url_key row \<in> known) rows"

section \<open>Example sites\<close>

text \<open>
  Three pages, the count 3 read off page 1: page 1 lists three known links and two new
  ones, page 2 lists nothing, page 3 one link.
\<close>

definition site_a :: site where
  "site_a =
     \<lparr>session_get =
        (\<lambda>page. Inr (Response 200
           (if page = 1 then ''p1'' else if page = 2 then ''p2'' else ''p3''))),
      extract_detail_links =
        (\<lambda>html. if html = ''p1'' then [''k1'', ''k2'', ''k3'', ''n1'', ''n2'']
                else if html = ''p3'' then [''m1''] else []),
      extract_total_pages = (\<lambda>html. if html = ''p1'' then Some 3 else None)\<rparr>"

text \<open>Three pages: page 2 lists the three links of page 1 again and two new ones.\<close>

definition site_b :: site where
  "site_b =
     \<lparr>session_get =
        (\<lambda>page. Inr (Response 200
           (if page = 1 then ''p1'' else if page = 2 then ''p2'' else ''p3''))),
      extract_detail_links =
        (\<lambda>html. if html = ''p1'' then [''k1'', ''k2'', ''k3'']
                else if html = ''p2'' then [''k1'', ''k2'', ''k3'', ''n1'', ''n2'']
                else [''m1'']),
      extract_total_pages = (\<lambda>html. if html = ''p1'' then Some 3 else None)\<rparr>"

text \<open>No page lists a link, and no page count.\<close>

definition site_c :: site where
  "site_c =
     \<lparr>session_get = (\<lambda>page. Inr (Response 200 ''none'')),
      extract_detail_links = (\<lambda>html. []),
      extract_total_pages = (\<lambda>html. None)\<rparr>"

text \<open>Page 1 lists two links; every later page answers 429.\<close>

definition site_d :: site where
  "site_d =
     \<lparr>session_get =
        (\<lambda>page. if page = 1 then Inr (Response 200 ''p1'') else Inr (Response 429 ''wait'')),
      extract_detail_links = (\<lambda>html. if html = ''p1'' then [''u1'', ''u2''] else []),
      extract_total_pages = (\<lambda>html. None)\<rparr>"

section \<open>Merging the same batch again\<close>

text \<open>
  The last record of a batch that the third loop stores under the key \<open>k\<close>, if there is
  one: the record the dict holds under \<open>k\<close> after the loop.
\<close>

fun lastf :: "(job \<Rightarrow> bool) \<Rightarrow> string \<Rightarrow> job list \<Rightarrow> job option" where
  "lastf keep k [] = None"
| "lastf keep k (r # f) =
     (case lastf keep k f of
        Some r' \<Rightarrow> Some r'
      | None \<Rightarrow> if url_key r = k \<and> k \<noteq> [] \<and> keep r then Some r else None)"

text \<open>What the third loop leaves under the key \<open>k\<close> when the dict held \<open>j\<close> there, with an
  integer id.\<close>

definition overlaid :: "(job \<Rightarrow> bool) \<Rightarrow> job list \<Rightarrow> string \<Rightarrow> job \<Rightarrow> job" where
  "overlaid keep g k j =
     (case lastf keep k g of None \<Rightarrow> j | Some r \<Rightarrow> r(''id'' \<mapsto> get j ''id''))"

text \<open>
  The merge writes into the records of \<open>fresh\<close> it is given: \<^verbatim>\<open>id\<close> into every record it
  stores, and the default \<^verbatim>\<open>source\<close> into those still in the dict at the end. \<open>r'\<close> is
  \<open>r\<close> as a call with the output \<open>out\<close> may leave it: untouched, or with the id of the
  output record of its URL, or with that id and the default source.
\<close>

definition wrote :: "string option \<Rightarrow> job list \<Rightarrow> job \<Rightarrow> job \<Rightarrow> bool" where
  "wrote src out r r' \<longleftrightarrow>
     r' = r \<or>
     list_ex (\<lambda>j. url_key j = url_key r \<and>
                   (r' = r(''id'' \<mapsto> get j ''id'') \<or>
                    r' = setdefault_source src (r(''id'' \<mapsto> get j ''id'')))) out"

definition written_back :: "string option \<Rightarrow> job list \<Rightarrow> job list \<Rightarrow> job list \<Rightarrow> bool" where
  "written_back src out fresh fresh' \<longleftrightarrow> list_all2 (wrote src out) fresh fresh'"

section \<open>Properties of the merge\<close>

lemma get_upd_same: "get (j(k \<mapsto> v)) k = v"
  by (simp add: get_def)

lemma get_upd_other: "k \<noteq> k' \<Longrightarrow> get (j(k' \<mapsto> v)) k = get j k"
  by (simp add: get_def)

lemma url_key_upd_id: "url_key (j(''id'' \<mapsto> v)) = url_key j"
  by (simp add: url_key_def get_def)

lemma url_key_setdefault: "url_key (setdefault_source src j) = url_key j"
  by (simp add: url_key_def get_def setdefault_source_def split: option.splits)

lemma get_id_setdefault: "get (setdefault_source src j) ''id'' = get j ''id''"
  by (simp add: get_def setdefault_source_def split: option.splits)

lemma setdefault_idem: "setdefault_source src (setdefault_source src j) = setdefault_source src j"
  by (simp add: setdefault_source_def split: option.splits)

lemma setdefault_upd_id:
  "setdefault_source src (j(''id'' \<mapsto> v)) = (setdefault_source src j)(''id'' \<mapsto> v)"
  by (auto simp add: setdefault_source_def fun_upd_twist split: option.splits)

lemma in_update:
  assumes "distinct (map fst D)"
  shows "(k', v') \<in> set (AList.update k v D) \<longleftrightarrow> (k' = k \<and> v' = v) \<or> (k' \<noteq> k \<and> (k', v') \<in> set D)"
proof -
  have d: "distinct (map fst (AList.update k v D))"
    using assms by (rule distinct_update)
  have "(k', v') \<in> set (AList.update k v D) \<longleftrightarrow> map_of (AList.update k v D) k' = Some v'"
    using d by simp
  also have "\<dots> \<longleftrightarrow> ((map_of D)(k \<mapsto> v)) k' = Some v'"
    by (simp add: update_conv')
  also have "\<dots> \<longleftrightarrow> (k' = k \<and> v' = v) \<or> (k' \<noteq> k \<and> (k', v') \<in> set D)"
    using assms by auto
  finally show ?thesis .
qed

lemma keyed_update:
  "keyed keep D \<Longrightarrow> url_key j = k \<Longrightarrow> k \<noteq> [] \<Longrightarrow> keep j \<Longrightarrow> keyed keep (AList.update k j D)"
  unfolding keyed_def by (auto simp: in_update distinct_update)

lemma keyed_seed: "keyed keep D \<Longrightarrow> keyed keep (seed keep D c)"
  by (induction c arbitrary: D) (auto simp: Let_def keyed_update)

lemma keys_seed:
  "fst ` set (seed keep D c) = fst ` set D \<union> {url_key r |r. r \<in> set c \<and> url_key r \<noteq> [] \<and> keep r}"
  by (induction c arbitrary: D) (auto simp: Let_def dom_update)

lemma seed_from_current:
  "distinct (map fst D) \<Longrightarrow> (k, j) \<in> set (seed keep D c) \<Longrightarrow> (k, j) \<in> set D \<or> j \<in> set c"
proof (induction c arbitrary: D)
  case Nil
  then show ?case by simp
next
  case (Cons a c)
  show ?case
  proof (cases "url_key a \<noteq> [] \<and> keep a")
    case True
    have "(k, j) \<in> set (AList.update (url_key a) a D) \<or> j \<in> set c"
      using Cons.IH [OF distinct_update [OF Cons.prems(1)]] Cons.prems(2) True
      by (simp add: Let_def)
    then show ?thesis
      using Cons.prems(1) by (auto simp: in_update)
  next
    case False
    then have "(k, j) \<in> set (seed keep D c)"
      using Cons.prems(2) by (auto simp: Let_def split: if_splits)
    from Cons.IH [OF Cons.prems(1) this] show ?thesis by auto
  qed
qed

lemma keyed_overlay:
  "keyed keep D \<Longrightarrow> id_stable keep \<Longrightarrow> keyed keep (fst (overlay keep (D, m) f))"
proof (induction f arbitrary: D m)
  case Nil
  then show ?case by simp
next
  case (Cons r f)
  have k: "keep r \<Longrightarrow> keep (r(''id'' \<mapsto> v))" for v
    using Cons.prems(2) by (simp add: id_stable_def)
  show ?case
    using Cons.prems
    by (auto simp: Let_def intro!: Cons.IH keyed_update k simp: url_key_upd_id)
qed

lemma keys_overlay:
  "fst ` set (fst (overlay keep (D, m) f)) =
     fst ` set D \<union> {url_key r |r. r \<in> set f \<and> url_key r \<noteq> [] \<and> keep r}"
  by (induction f arbitrary: D m) (auto simp: Let_def dom_update)

lemma keys_backfill: "map fst (backfill src m D) = map fst D"
  by (induction D arbitrary: m) (auto simp: Let_def)

lemma filled_mono: "filled src (m + 1) j j1 \<Longrightarrow> filled src m j j1"
  unfolding filled_def by (metis add_less_same_cancel1 less_add_same_cancel1 less_trans zero_less_one)

lemma in_backfill:
  "(k, j1) \<in> set (backfill src m D) \<Longrightarrow> \<exists>j. (k, j) \<in> set D \<and> filled src m j j1"
proof (induction D arbitrary: m)
  case Nil
  then show ?case by simp
next
  case (Cons p D)
  obtain u r where p: "p = (u, r)" by (cases p)
  show ?case
  proof (cases "is_int (get r ''id'')")
    case True
    then have "(k, j1) = (u, setdefault_source src r) \<or> (k, j1) \<in> set (backfill src m D)"
      using Cons.prems p by (simp add: Let_def get_id_setdefault)
    then show ?thesis
    proof
      assume "(k, j1) = (u, setdefault_source src r)"
      then have "(k, r) \<in> set (p # D) \<and> filled src m r j1"
        using True p by (simp add: filled_def)
      then show ?thesis by blast
    next
      assume "(k, j1) \<in> set (backfill src m D)"
      from Cons.IH [OF this] show ?thesis by auto
    qed
  next
    case False
    then have "(k, j1) = (u, (setdefault_source src r)(''id'' \<mapsto> JInt (m + 1)))
        \<or> (k, j1) \<in> set (backfill src (m + 1) D)"
      using Cons.prems p by (simp add: Let_def get_id_setdefault)
    then show ?thesis
    proof
      assume e: "(k, j1) = (u, (setdefault_source src r)(''id'' \<mapsto> JInt (m + 1)))"
      have "m < m + 1" by simp
      with e False have "filled src m r j1"
        unfolding filled_def by blast
      with e p have "(k, r) \<in> set (p # D) \<and> filled src m r j1" by simp
      then show ?thesis by blast
    next
      assume "(k, j1) \<in> set (backfill src (m + 1) D)"
      from Cons.IH [OF this] obtain j where "(k, j) \<in> set D" "filled src (m + 1) j j1"
        by blast
      then have "(k, j) \<in> set (p # D) \<and> filled src m j j1"
        by (simp add: filled_mono)
      then show ?thesis by blast
    qed
  qed
qed

lemma filled_props:
  assumes "filled src m j j1"
  shows "url_key j1 = url_key j" and "is_int (get j1 ''id'')"
    and "setdefault_source src j1 = j1"
    and "is_int (get j ''id'') \<Longrightarrow> get j1 ''id'' = get j ''id''"
  using assms unfolding filled_def
  by (auto simp: url_key_setdefault url_key_upd_id get_id_setdefault setdefault_idem
      setdefault_upd_id get_upd_same is_int_def)

lemma keep_setdefault: "id_stable keep \<Longrightarrow> keep (setdefault_source src j) = keep j"
  by (simp add: id_stable_def setdefault_source_def split: option.splits)

lemma keep_upd_id: "id_stable keep \<Longrightarrow> keep (j(''id'' \<mapsto> v)) = keep j"
  by (simp add: id_stable_def)

lemma filled_keep: "id_stable keep \<Longrightarrow> filled src m j j1 \<Longrightarrow> keep j1 = keep j"
  unfolding filled_def by (auto simp: keep_setdefault keep_upd_id)

lemma keyed_backfill:
  assumes "keyed keep D" and "id_stable keep"
  shows "keyed keep (backfill src m D)"
  unfolding keyed_def
proof (intro conjI ballI)
  show "distinct (map fst (backfill src m D))"
    using assms(1) by (simp add: keys_backfill keyed_def)
next
  fix p assume p: "p \<in> set (backfill src m D)"
  obtain k j1 where kj: "p = (k, j1)" by (cases p)
  with p in_backfill obtain j where j: "(k, j) \<in> set D" "filled src m j j1" by blast
  from j(1) assms(1) have "url_key j = k \<and> k \<noteq> [] \<and> keep j"
    unfolding keyed_def by auto
  with j(2) assms(2) have "url_key j1 = k \<and> k \<noteq> [] \<and> keep j1"
    by (simp add: filled_props(1) filled_keep)
  with kj show "case p of (k, j) \<Rightarrow> url_key j = k \<and> k \<noteq> [] \<and> keep j" by simp
qed

lemma keyed_Nil: "keyed keep []"
  by (simp add: keyed_def)

lemma merge_dict_unfold:
  "merge_dict keep src c f =
     backfill src (snd (overlay keep (seed keep [] c, scan_max_id 0 c) f))
       (fst (overlay keep (seed keep [] c, scan_max_id 0 c) f))"
  by (simp add: merge_dict_def Let_def split: prod.splits)

lemma keyed_merge_dict: "id_stable keep \<Longrightarrow> keyed keep (merge_dict keep src c f)"
  unfolding merge_dict_unfold
  by (intro keyed_backfill keyed_overlay keyed_seed keyed_Nil)

lemma keyed_keys: "keyed keep D \<Longrightarrow> map url_key (map snd D) = map fst D"
  unfolding keyed_def by (induction D) auto

lemma distinct_map_sort_key: "distinct (map f (sort_key g xs)) = distinct (map f xs)"
  by (simp add: distinct_map)

lemma set_merge_core: "set (merge_core keep src c f) = snd ` set (merge_dict keep src c f)"
  by (simp add: merge_core_def sort_desc_def)

lemma merge_distinct_urls:
  "id_stable keep \<Longrightarrow> distinct (map url_key (merge_core keep src c f))"
proof -
  assume "id_stable keep"
  then have k: "keyed keep (merge_dict keep src c f)" by (rule keyed_merge_dict)
  then have "distinct (map url_key (map snd (merge_dict keep src c f)))"
    by (simp only: keyed_keys [OF k]) (simp add: keyed_def)
  then show ?thesis
    by (simp only: merge_core_def sort_desc_def distinct_map_sort_key)
qed

lemma merge_keys:
  "id_stable keep \<Longrightarrow>
   url_key ` set (merge_core keep src c f) =
     {url_key r |r. r \<in> set c \<and> url_key r \<noteq> [] \<and> keep r} \<union>
     {url_key r |r. r \<in> set f \<and> url_key r \<noteq> [] \<and> keep r}"
proof -
  assume "id_stable keep"
  then have k: "keyed keep (merge_dict keep src c f)" by (rule keyed_merge_dict)
  have "url_key ` set (merge_core keep src c f) = set (map url_key (map snd (merge_dict keep src c f)))"
    by (simp add: set_merge_core image_image)
  also have "\<dots> = fst ` set (merge_dict keep src c f)"
    by (simp only: keyed_keys [OF k] set_map)
  also have "\<dots> = set (map fst (merge_dict keep src c f))" by simp
  also have "\<dots> = fst ` set (fst (overlay keep (seed keep [] c, scan_max_id 0 c) f))"
    by (simp only: merge_dict_unfold keys_backfill set_map)
  also have "\<dots> = {url_key r |r. r \<in> set c \<and> url_key r \<noteq> [] \<and> keep r} \<union>
     {url_key r |r. r \<in> set f \<and> url_key r \<noteq> [] \<and> keep r}"
    by (simp add: keys_overlay keys_seed)
  finally show ?thesis .
qed

lemma merge_entry:
  assumes "id_stable keep" and "j \<in> set (merge_core keep src c f)"
  shows "url_key j \<noteq> []" and "keep j" and "is_int (get j ''id'')"
    and "setdefault_source src j = j"
proof -
  from assms(2) obtain k where kj: "(k, j) \<in> set (merge_dict keep src c f)"
    by (auto simp: set_merge_core)
  with keyed_merge_dict [OF assms(1), of src c f] show "url_key j \<noteq> []" "keep j"
    unfolding keyed_def by auto
  from kj obtain j0 m where "filled src m j0 j"
    unfolding merge_dict_unfold using in_backfill by blast
  then show "is_int (get j ''id'')" "setdefault_source src j = j"
    by (simp_all add: filled_props)
qed

lemma scan_max_id_ge: "m \<le> scan_max_id m c"
proof (induction c arbitrary: m)
  case Nil
  then show ?case by simp
next
  case (Cons r c)
  show ?case
  proof (cases "py_int (get r ''id'')")
    case None
    then show ?thesis using Cons.IH [of m] by simp
  next
    case (Some n)
    then show ?thesis
      using Cons.IH [of m] Cons.IH [of n] by (cases "n > m") auto
  qed
qed

lemma scan_max_id_bound:
  "r \<in> set c \<Longrightarrow> py_int (get r ''id'') = Some n \<Longrightarrow> n \<le> scan_max_id m c"
proof (induction c arbitrary: m)
  case Nil
  then show ?case by simp
next
  case (Cons a c)
  show ?case
  proof (cases "r = a")
    case True
    then show ?thesis
      using Cons.prems(2) scan_max_id_ge [of n c] scan_max_id_ge [of m c]
      by (cases "n > m") auto
  next
    case False
    then have "r \<in> set c" using Cons.prems(1) by simp
    then have "\<And>m'. n \<le> scan_max_id m' c" using Cons.IH Cons.prems(2) by blast
    then show ?thesis by (auto split: option.splits)
  qed
qed

lemma ids_okI:
  assumes "\<And>k j. (k, j) \<in> set D \<Longrightarrow> is_int (get j ''id'') \<Longrightarrow> \<exists>n. get j ''id'' = JInt n \<and> 0 < n \<and> n \<le> m"
    and "\<And>k j k' j'. (k, j) \<in> set D \<Longrightarrow> (k', j') \<in> set D \<Longrightarrow> is_int (get j ''id'') \<Longrightarrow>
           get j ''id'' = get j' ''id'' \<Longrightarrow> k = k'"
  shows "ids_ok D m"
  unfolding ids_ok_def using assms by blast

lemma ids_okD1:
  "ids_ok D m \<Longrightarrow> (k, j) \<in> set D \<Longrightarrow> is_int (get j ''id'') \<Longrightarrow> \<exists>n. get j ''id'' = JInt n \<and> 0 < n \<and> n \<le> m"
  unfolding ids_ok_def by blast

lemma ids_okD2:
  "ids_ok D m \<Longrightarrow> (k, j) \<in> set D \<Longrightarrow> (k', j') \<in> set D \<Longrightarrow> is_int (get j ''id'') \<Longrightarrow>
     get j ''id'' = get j' ''id'' \<Longrightarrow> k = k'"
  unfolding ids_ok_def by blast

lemma is_int_JInt: "is_int (JInt n)"
  by (simp add: is_int_def)

lemma update_cases:
  assumes "distinct (map fst D)" and "(k, j) \<in> set (AList.update u v D)"
  obtains "k = u" and "j = v" | "k \<noteq> u" and "(k, j) \<in> set D"
  using assms in_update [of D k j u v] by blast

lemma ids_ok_carry:
  assumes ok: "ids_ok D m" and d: "distinct (map fst D)"
    and e: "(u, e) \<in> set D" and i: "is_int (get e ''id'')"
  shows "ids_ok (AList.update u (r(''id'' \<mapsto> get e ''id'')) D) m"
proof (rule ids_okI)
  fix k j assume a: "(k, j) \<in> set (AList.update u (r(''id'' \<mapsto> get e ''id'')) D)"
    and c: "is_int (get j ''id'')"
  from d a show "\<exists>n. get j ''id'' = JInt n \<and> 0 < n \<and> n \<le> m"
  proof (cases rule: update_cases)
    case 1
    then have "get j ''id'' = get e ''id''" by (simp add: get_upd_same)
    with ids_okD1 [OF ok e i] show ?thesis by metis
  next
    case 2
    from ids_okD1 [OF ok 2(2) c] show ?thesis .
  qed
next
  fix k j k' j'
  assume a: "(k, j) \<in> set (AList.update u (r(''id'' \<mapsto> get e ''id'')) D)"
    and b: "(k', j') \<in> set (AList.update u (r(''id'' \<mapsto> get e ''id'')) D)"
    and c: "is_int (get j ''id'')" and q: "get j ''id'' = get j' ''id''"
  from d a show "k = k'"
  proof (cases rule: update_cases)
    case 1
    then have je: "get j ''id'' = get e ''id''" by (simp add: get_upd_same)
    from d b show ?thesis
    proof (cases rule: update_cases)
      case 1
      with \<open>k = u\<close> show ?thesis by simp
    next
      case 2
      have "get e ''id'' = get j' ''id''" using je q by metis
      from ids_okD2 [OF ok e 2(2) i this] \<open>k = u\<close> show ?thesis by metis
    qed
  next
    case 2
    note kj = 2
    from d b show ?thesis
    proof (cases rule: update_cases)
      case 1
      then have "get j' ''id'' = get e ''id''" by (simp add: get_upd_same)
      then have "get j ''id'' = get e ''id''" using q by metis
      from ids_okD2 [OF ok kj(2) e c this] \<open>k' = u\<close> show ?thesis by metis
    next
      case 2
      from ids_okD2 [OF ok kj(2) 2(2) c q] show ?thesis .
    qed
  qed
qed

lemma ids_ok_new:
  assumes ok: "ids_ok D m" and d: "distinct (map fst D)" and m: "0 \<le> m"
  shows "ids_ok (AList.update u (r(''id'' \<mapsto> JInt (m + 1))) D) (m + 1)"
proof (rule ids_okI)
  fix k j assume a: "(k, j) \<in> set (AList.update u (r(''id'' \<mapsto> JInt (m + 1))) D)"
    and i: "is_int (get j ''id'')"
  from d a show "\<exists>n. get j ''id'' = JInt n \<and> 0 < n \<and> n \<le> m + 1"
  proof (cases rule: update_cases)
    case 1
    then have "get j ''id'' = JInt (m + 1)" by (simp add: get_upd_same)
    with m show ?thesis by simp
  next
    case 2
    from ids_okD1 [OF ok 2(2) i] obtain n where "get j ''id'' = JInt n" "0 < n" "n \<le> m"
      by blast
    then have "get j ''id'' = JInt n \<and> 0 < n \<and> n \<le> m + 1" by simp
    then show ?thesis ..
  qed
next
  fix k j k' j'
  assume a: "(k, j) \<in> set (AList.update u (r(''id'' \<mapsto> JInt (m + 1))) D)"
    and b: "(k', j') \<in> set (AList.update u (r(''id'' \<mapsto> JInt (m + 1))) D)"
    and c: "is_int (get j ''id'')" and q: "get j ''id'' = get j' ''id''"
  have old: "get x ''id'' \<noteq> JInt (m + 1)" if "(kx, x) \<in> set D" for kx x
  proof
    assume x: "get x ''id'' = JInt (m + 1)"
    then have "is_int (get x ''id'')" by (simp add: is_int_JInt)
    from ids_okD1 [OF ok that this] x show False by auto
  qed
  from d a show "k = k'"
  proof (cases rule: update_cases)
    case 1
    then have je: "get j ''id'' = JInt (m + 1)" by (simp add: get_upd_same)
    from d b show ?thesis
    proof (cases rule: update_cases)
      case 1
      with \<open>k = u\<close> show ?thesis by simp
    next
      case 2
      have "get j' ''id'' = JInt (m + 1)" using je q by metis
      with old [OF 2(2)] show ?thesis by metis
    qed
  next
    case 2
    note kj = 2
    from d b show ?thesis
    proof (cases rule: update_cases)
      case 1
      then have "get j' ''id'' = JInt (m + 1)" by (simp add: get_upd_same)
      then have "get j ''id'' = JInt (m + 1)" using q by metis
      with old [OF kj(2)] show ?thesis by metis
    next
      case 2
      from ids_okD2 [OF ok kj(2) 2(2) c q] show ?thesis .
    qed
  qed
qed

lemma has_id_Some: "has_id (map_of D u) \<Longrightarrow> \<exists>e. map_of D u = Some e \<and> is_int (get e ''id'')"
  by (auto simp: has_id_def split: option.splits)

lemma overlay_skip:
  "url_key r = [] \<or> \<not> keep r \<Longrightarrow> overlay keep (D, m) (r # f) = overlay keep (D, m) f"
  by (auto simp: Let_def)

lemma overlay_carry:
  "url_key r \<noteq> [] \<Longrightarrow> keep r \<Longrightarrow> map_of D (url_key r) = Some e \<Longrightarrow> is_int (get e ''id'') \<Longrightarrow>
     overlay keep (D, m) (r # f) =
       overlay keep (AList.update (url_key r) (r(''id'' \<mapsto> get e ''id'')) D, m) f"
  by (simp add: Let_def has_id_def)

lemma overlay_new:
  "url_key r \<noteq> [] \<Longrightarrow> keep r \<Longrightarrow> \<not> has_id (map_of D (url_key r)) \<Longrightarrow>
     overlay keep (D, m) (r # f) =
       overlay keep (AList.update (url_key r) (r(''id'' \<mapsto> JInt (m + 1))) D, m + 1) f"
  by (simp add: Let_def)

lemma overlay_cases:
  obtains (skip) "url_key r = [] \<or> \<not> keep r"
  | (carry) e where "url_key r \<noteq> []" "keep r" "map_of D (url_key r) = Some e" "is_int (get e ''id'')"
  | (new) "url_key r \<noteq> []" "keep r" "\<not> has_id (map_of D (url_key r))"
proof (cases "url_key r = [] \<or> \<not> keep r")
  case True
  then show ?thesis by (rule skip)
next
  case False
  then have k: "url_key r \<noteq> []" "keep r" by simp_all
  show ?thesis
  proof (cases "has_id (map_of D (url_key r))")
    case True
    then obtain e where "map_of D (url_key r) = Some e" "is_int (get e ''id'')"
      using has_id_Some [of D "url_key r"] by auto
    with k show ?thesis by (rule carry)
  next
    case False
    with k show ?thesis by (rule new)
  qed
qed

lemma overlay_ids_ok:
  "ids_ok D m \<Longrightarrow> distinct (map fst D) \<Longrightarrow> 0 \<le> m \<Longrightarrow>
     ids_ok (fst (overlay keep (D, m) f)) (snd (overlay keep (D, m) f))
     \<and> 0 \<le> snd (overlay keep (D, m) f)"
proof (induction f arbitrary: D m)
  case Nil
  then show ?case by simp
next
  case (Cons r f)
  let ?u = "url_key r"
  show ?case
  proof (cases rule: overlay_cases [where r = r and keep = keep and D = D])
    case skip
    show ?thesis
      unfolding overlay_skip [where keep = keep and r = r, OF skip] by (rule Cons.IH [OF Cons.prems])
  next
    case (carry e)
    then have "(?u, e) \<in> set D" by (simp add: map_of_SomeD)
    from ids_ok_carry [OF Cons.prems(1,2) this carry(4)]
    have "ids_ok (AList.update ?u (r(''id'' \<mapsto> get e ''id'')) D) m" .
    from Cons.IH [OF this distinct_update [OF Cons.prems(2)] Cons.prems(3)]
    show ?thesis unfolding overlay_carry [where keep = keep, OF carry] .
  next
    case new
    from ids_ok_new [OF Cons.prems]
    have i: "ids_ok (AList.update ?u (r(''id'' \<mapsto> JInt (m + 1))) D) (m + 1)" .
    have "0 \<le> m + 1" using Cons.prems(3) by simp
    from Cons.IH [OF i distinct_update [OF Cons.prems(2)] this]
    show ?thesis unfolding overlay_new [where keep = keep, OF new] .
  qed
qed

lemma ids_ok_tail: "ids_ok (p # D) m \<Longrightarrow> ids_ok D m"
  unfolding ids_ok_def by (meson list.set_intros(2))

lemma ids_ok_mono: "ids_ok D m \<Longrightarrow> ids_ok D (m + 1)"
proof (rule ids_okI)
  fix k j assume "ids_ok D m" "(k, j) \<in> set D" "is_int (get j ''id'')"
  from ids_okD1 [OF this] show "\<exists>n. get j ''id'' = JInt n \<and> 0 < n \<and> n \<le> m + 1" by auto
next
  fix k j k' j' assume "ids_ok D m" "(k, j) \<in> set D" "(k', j') \<in> set D"
    "is_int (get j ''id'')" "get j ''id'' = get j' ''id''"
  from ids_okD2 [OF this] show "k = k'" .
qed

lemma ids_finI:
  assumes "\<And>k j. (k, j) \<in> set D \<Longrightarrow> \<exists>n. get j ''id'' = JInt n \<and> 0 < n"
    and "\<And>k j k' j'. (k, j) \<in> set D \<Longrightarrow> (k', j') \<in> set D \<Longrightarrow>
           get j ''id'' = get j' ''id'' \<Longrightarrow> k = k'"
  shows "ids_fin D"
  unfolding ids_fin_def using assms by meson

lemma ids_finD1: "ids_fin D \<Longrightarrow> (k, j) \<in> set D \<Longrightarrow> \<exists>n. get j ''id'' = JInt n \<and> 0 < n"
  unfolding ids_fin_def by meson

lemma ids_finD2:
  "ids_fin D \<Longrightarrow> (k, j) \<in> set D \<Longrightarrow> (k', j') \<in> set D \<Longrightarrow> get j ''id'' = get j' ''id'' \<Longrightarrow> k = k'"
  unfolding ids_fin_def by meson

lemma filled_id:
  assumes "filled src m j0 j1"
  obtains "is_int (get j0 ''id'')" and "get j1 ''id'' = get j0 ''id''"
  | n where "m < n" and "get j1 ''id'' = JInt n"
proof -
  from assms have
    "(is_int (get j0 ''id'') \<and> j1 = setdefault_source src j0) \<or>
     (\<exists>n. m < n \<and> j1 = (setdefault_source src j0)(''id'' \<mapsto> JInt n))"
    unfolding filled_def by meson
  then show ?thesis
  proof
    assume "is_int (get j0 ''id'') \<and> j1 = setdefault_source src j0"
    then have "is_int (get j0 ''id'')" "get j1 ''id'' = get j0 ''id''"
      by (simp_all add: get_id_setdefault)
    then show ?thesis by (rule that(1))
  next
    assume "\<exists>n. m < n \<and> j1 = (setdefault_source src j0)(''id'' \<mapsto> JInt n)"
    then obtain n where n: "m < n \<and> j1 = (setdefault_source src j0)(''id'' \<mapsto> JInt n)" ..
    then have "m < n" "get j1 ''id'' = JInt n" by (simp_all add: get_upd_same)
    then show ?thesis by (rule that(2))
  qed
qed

lemma backfill_head_old:
  assumes ok: "ids_ok ((u, r) # D) m" and i: "is_int (get r ''id'')"
    and b: "(k', j') \<in> set (backfill src m D)" and q: "get j' ''id'' = get r ''id''"
  shows "k' = u"
proof -
  from in_backfill [OF b] obtain j0 where j0: "(k', j0) \<in> set D" "filled src m j0 j'" by meson
  have r: "(u, r) \<in> set ((u, r) # D)" by simp
  have j0': "(k', j0) \<in> set ((u, r) # D)" using j0(1) by simp
  from j0(2) show ?thesis
  proof (cases rule: filled_id)
    case 1
    then have "get r ''id'' = get j0 ''id''" using q by simp
    from ids_okD2 [OF ok r j0' i this] show ?thesis by simp
  next
    case (2 n)
    from ids_okD1 [OF ok r i] obtain n0 where "get r ''id'' = JInt n0" "n0 \<le> m" by meson
    with 2 q show ?thesis by simp
  qed
qed

lemma backfill_head_new:
  assumes ok: "ids_ok D m"
    and b: "(k', j') \<in> set (backfill src (m + 1) D)"
  shows "get j' ''id'' \<noteq> JInt (m + 1)"
proof
  assume q: "get j' ''id'' = JInt (m + 1)"
  from in_backfill [OF b] obtain j0 where j0: "(k', j0) \<in> set D" "filled src (m + 1) j0 j'"
    by meson
  from j0(2) show False
  proof (cases rule: filled_id)
    case 1
    from ids_okD1 [OF ok j0(1) 1(1)] obtain n0 where "get j0 ''id'' = JInt n0" "n0 \<le> m"
      by meson
    with 1 q show False by simp
  next
    case (2 n)
    with q show False by simp
  qed
qed

lemma backfill_ids: "ids_ok D m \<Longrightarrow> 0 \<le> m \<Longrightarrow> ids_fin (backfill src m D)"
proof (induction D arbitrary: m)
  case Nil
  show ?case by (rule ids_finI) simp_all
next
  case (Cons p D)
  obtain u r where p: "p = (u, r)" by (cases p)
  have ok: "ids_ok ((u, r) # D) m" using Cons.prems(1) p by simp
  have okD: "ids_ok D m" using ok by (rule ids_ok_tail)
  have hd_in: "(u, r) \<in> set ((u, r) # D)" by simp
  show ?case
  proof (cases "is_int (get r ''id'')")
    case True
    let ?B = "backfill src m D"
    have e: "backfill src m (p # D) = (u, setdefault_source src r) # ?B"
      using True p by (simp add: Let_def get_id_setdefault)
    have fin: "ids_fin ?B" using Cons.IH [OF okD Cons.prems(2)] .
    from ids_okD1 [OF ok hd_in True] obtain n0 where n0: "get r ''id'' = JInt n0" "0 < n0"
      by meson
    have hid: "get (setdefault_source src r) ''id'' = get r ''id''"
      by (rule get_id_setdefault)
    show ?thesis
      unfolding e
    proof (rule ids_finI)
      fix k j assume "(k, j) \<in> set ((u, setdefault_source src r) # ?B)"
      then have "j = setdefault_source src r \<or> (k, j) \<in> set ?B" by auto
      then show "\<exists>n. get j ''id'' = JInt n \<and> 0 < n"
      proof
        assume "j = setdefault_source src r"
        with hid n0 show ?thesis by simp
      next
        assume "(k, j) \<in> set ?B"
        from ids_finD1 [OF fin this] show ?thesis .
      qed
    next
      fix k j k' j'
      assume a: "(k, j) \<in> set ((u, setdefault_source src r) # ?B)"
        and b: "(k', j') \<in> set ((u, setdefault_source src r) # ?B)"
        and q: "get j ''id'' = get j' ''id''"
      from a have a': "(k = u \<and> j = setdefault_source src r) \<or> (k, j) \<in> set ?B" by auto
      from b have b': "(k' = u \<and> j' = setdefault_source src r) \<or> (k', j') \<in> set ?B" by auto
      from a' show "k = k'"
      proof
        assume A: "k = u \<and> j = setdefault_source src r"
        from b' show ?thesis
        proof
          assume "k' = u \<and> j' = setdefault_source src r"
          with A show ?thesis by simp
        next
          assume B: "(k', j') \<in> set ?B"
          have "get j' ''id'' = get r ''id''" using A q hid by simp
          from backfill_head_old [OF ok True B this] A show ?thesis by simp
        qed
      next
        assume A: "(k, j) \<in> set ?B"
        from b' show ?thesis
        proof
          assume B: "k' = u \<and> j' = setdefault_source src r"
          have "get j ''id'' = get r ''id''" using B q hid by simp
          from backfill_head_old [OF ok True A this] B show ?thesis by simp
        next
          assume B: "(k', j') \<in> set ?B"
          from ids_finD2 [OF fin A B q] show ?thesis .
        qed
      qed
    qed
  next
    case False
    let ?B = "backfill src (m + 1) D"
    let ?h = "(setdefault_source src r)(''id'' \<mapsto> JInt (m + 1))"
    have e: "backfill src m (p # D) = (u, ?h) # ?B"
      using False p by (simp add: Let_def get_id_setdefault)
    have m1: "0 \<le> m + 1" using Cons.prems(2) by simp
    have okD1: "ids_ok D (m + 1)" using okD by (rule ids_ok_mono)
    have fin: "ids_fin ?B" using Cons.IH [OF okD1 m1] .
    have hid: "get ?h ''id'' = JInt (m + 1)" by (rule get_upd_same)
    show ?thesis
      unfolding e
    proof (rule ids_finI)
      fix k j assume "(k, j) \<in> set ((u, ?h) # ?B)"
      then have "j = ?h \<or> (k, j) \<in> set ?B" by auto
      then show "\<exists>n. get j ''id'' = JInt n \<and> 0 < n"
      proof
        assume "j = ?h"
        with hid Cons.prems(2) show ?thesis by simp
      next
        assume "(k, j) \<in> set ?B"
        from ids_finD1 [OF fin this] show ?thesis .
      qed
    next
      fix k j k' j'
      assume a: "(k, j) \<in> set ((u, ?h) # ?B)"
        and b: "(k', j') \<in> set ((u, ?h) # ?B)"
        and q: "get j ''id'' = get j' ''id''"
      from a have a': "(k = u \<and> j = ?h) \<or> (k, j) \<in> set ?B" by auto
      from b have b': "(k' = u \<and> j' = ?h) \<or> (k', j') \<in> set ?B" by auto
      from a' show "k = k'"
      proof
        assume A: "k = u \<and> j = ?h"
        from b' show ?thesis
        proof
          assume "k' = u \<and> j' = ?h"
          with A show ?thesis by simp
        next
          assume B: "(k', j') \<in> set ?B"
          have "get j' ''id'' = JInt (m + 1)" using A q hid by simp
          with backfill_head_new [OF okD B] show ?thesis by simp
        qed
      next
        assume A: "(k, j) \<in> set ?B"
        from b' show ?thesis
        proof
          assume B: "k' = u \<and> j' = ?h"
          have "get j ''id'' = JInt (m + 1)" using B q hid by simp
          with backfill_head_new [OF okD A] show ?thesis by simp
        next
          assume B: "(k', j') \<in> set ?B"
          from ids_finD2 [OF fin A B q] show ?thesis .
        qed
      qed
    qed
  qed
qed

lemma pos_id_iff: "pos_id v \<longleftrightarrow> (\<exists>n. v = JInt n \<and> 0 < n)"
  by (cases v) (simp_all add: pos_id_def)

lemma ids_valid_alt:
  "ids_valid current \<longleftrightarrow>
     (\<forall>r \<in> set current. is_int (get r ''id'') \<longrightarrow> (\<exists>n. get r ''id'' = JInt n \<and> 0 < n)) \<and>
     (\<forall>r \<in> set current. \<forall>s \<in> set current.
        is_int (get r ''id'') \<and> get r ''id'' = get s ''id'' \<longrightarrow> url_key r = url_key s)"
  unfolding ids_valid_def pos_id_iff ..

lemma py_int_JInt: "get r ''id'' = JInt n \<Longrightarrow> py_int (get r ''id'') = Some n"
  by simp

lemma seed_ids_ok:
  assumes v: "ids_valid c"
  shows "ids_ok (seed keep [] c) (scan_max_id 0 c)"
proof (rule ids_okI)
  have kd: "keyed keep (seed keep [] c)" by (intro keyed_seed keyed_Nil)
  have mem: "j \<in> set c \<and> url_key j = k" if "(k, j) \<in> set (seed keep [] c)" for k j
  proof -
    have "j \<in> set c" using seed_from_current [of "[]" k j keep c] that by simp
    moreover have "url_key j = k" using kd that unfolding keyed_def by auto
    ultimately show ?thesis by simp
  qed
  {
    fix k j assume a: "(k, j) \<in> set (seed keep [] c)" and i: "is_int (get j ''id'')"
    from mem [OF a] have jc: "j \<in> set c" by simp
    with v i obtain n where n: "get j ''id'' = JInt n" "0 < n"
      unfolding ids_valid_alt by meson
    have "n \<le> scan_max_id 0 c"
      using scan_max_id_bound [OF jc py_int_JInt [OF n(1)]] .
    with n show "\<exists>n. get j ''id'' = JInt n \<and> 0 < n \<and> n \<le> scan_max_id 0 c" by simp
  next
    fix k j k' j'
    assume a: "(k, j) \<in> set (seed keep [] c)" and b: "(k', j') \<in> set (seed keep [] c)"
      and i: "is_int (get j ''id'')" and q: "get j ''id'' = get j' ''id''"
    from mem [OF a] mem [OF b] have m: "j \<in> set c" "url_key j = k" "j' \<in> set c" "url_key j' = k'"
      by simp_all
    from v m(1) m(3) i q have "url_key j = url_key j'"
      unfolding ids_valid_alt by meson
    with m show "k = k'" by simp
  }
qed

lemma merge_dict_ids:
  assumes st: "id_stable keep" and v: "ids_valid c"
  shows "ids_fin (merge_dict keep src c f)"
proof -
  let ?S = "seed keep [] c" and ?m = "scan_max_id 0 c"
  have d: "distinct (map fst ?S)"
    using keyed_seed [OF keyed_Nil, of keep c] by (simp add: keyed_def)
  have m0: "0 \<le> ?m" by (rule scan_max_id_ge)
  from overlay_ids_ok [OF seed_ids_ok [OF v] d m0, of keep f]
  have "ids_ok (fst (overlay keep (?S, ?m) f)) (snd (overlay keep (?S, ?m) f))"
    and "0 \<le> snd (overlay keep (?S, ?m) f)" by simp_all
  then show ?thesis
    unfolding merge_dict_unfold by (rule backfill_ids)
qed

lemma distinct_ids_of_dict:
  assumes fin: "ids_fin D" and d: "distinct (map fst D)"
  shows "distinct (map (\<lambda>j. get j ''id'') (map snd D))"
proof -
  have "inj_on (\<lambda>p. get (snd p) ''id'') (set D)"
  proof (rule inj_onI)
    fix p q assume p: "p \<in> set D" and q: "q \<in> set D"
      and e: "get (snd p) ''id'' = get (snd q) ''id''"
    obtain k j where pk: "p = (k, j)" by (cases p)
    obtain k' j' where qk: "q = (k', j')" by (cases q)
    have "k = k'" using ids_finD2 [OF fin, of k j k' j'] p q e pk qk by simp
    moreover have "j = j'"
      using d p q pk qk \<open>k = k'\<close> by (metis eq_key_imp_eq_value)
    ultimately show "p = q" using pk qk by simp
  qed
  moreover have "distinct D" using d by (simp add: distinct_map)
  ultimately have "distinct (map (\<lambda>p. get (snd p) ''id'') D)"
    by (simp add: distinct_map)
  then show ?thesis by (simp add: comp_def)
qed

lemma merge_ids:
  assumes st: "id_stable keep" and v: "ids_valid c"
  shows "distinct (map (\<lambda>j. get j ''id'') (merge_core keep src c f))"
    and "j \<in> set (merge_core keep src c f) \<Longrightarrow> \<exists>n. get j ''id'' = JInt n \<and> 0 < n"
proof -
  let ?D = "merge_dict keep src c f"
  have fin: "ids_fin ?D" using st v by (rule merge_dict_ids)
  have d: "distinct (map fst ?D)" using keyed_merge_dict [OF st, of src c f] by (simp add: keyed_def)
  from distinct_ids_of_dict [OF fin d]
  show "distinct (map (\<lambda>j. get j ''id'') (merge_core keep src c f))"
    by (simp only: merge_core_def sort_desc_def distinct_map_sort_key)
  assume "j \<in> set (merge_core keep src c f)"
  then obtain k where "(k, j) \<in> set ?D" by (auto simp: set_merge_core)
  from ids_finD1 [OF fin this] show "\<exists>n. get j ''id'' = JInt n \<and> 0 < n" .
qed

lemma aboveD: "above K m0 D \<Longrightarrow> (k, j) \<in> set D \<Longrightarrow> k \<notin> K \<Longrightarrow> \<exists>n. get j ''id'' = JInt n \<and> m0 < n"
  unfolding above_def by meson

lemma aboveI:
  assumes "\<And>k j. (k, j) \<in> set D \<Longrightarrow> k \<notin> K \<Longrightarrow> \<exists>n. get j ''id'' = JInt n \<and> m0 < n"
  shows "above K m0 D"
  unfolding above_def using assms by meson

lemma overlay_above:
  "above K m0 D \<Longrightarrow> distinct (map fst D) \<Longrightarrow> m0 \<le> m \<Longrightarrow>
     above K m0 (fst (overlay keep (D, m) f)) \<and> m0 \<le> snd (overlay keep (D, m) f)"
proof (induction f arbitrary: D m)
  case Nil
  then show ?case by simp
next
  case (Cons r f)
  let ?u = "url_key r"
  note d = Cons.prems(2)
  show ?case
  proof (cases rule: overlay_cases [where r = r and keep = keep and D = D])
    case skip
    show ?thesis
      unfolding overlay_skip [where keep = keep and r = r, OF skip]
      by (rule Cons.IH [OF Cons.prems])
  next
    case (carry e)
    then have e: "(?u, e) \<in> set D" by (simp add: map_of_SomeD)
    have "above K m0 (AList.update ?u (r(''id'' \<mapsto> get e ''id'')) D)"
    proof (rule aboveI)
      fix k j assume a: "(k, j) \<in> set (AList.update ?u (r(''id'' \<mapsto> get e ''id'')) D)"
        and k: "k \<notin> K"
      from d a show "\<exists>n. get j ''id'' = JInt n \<and> m0 < n"
      proof (cases rule: update_cases)
        case 1
        then have "get j ''id'' = get e ''id''" by (simp add: get_upd_same)
        with aboveD [OF Cons.prems(1) e] k 1 show ?thesis by simp
      next
        case 2
        from aboveD [OF Cons.prems(1) 2(2) k] show ?thesis .
      qed
    qed
    from Cons.IH [OF this distinct_update [OF d] Cons.prems(3)]
    show ?thesis unfolding overlay_carry [where keep = keep, OF carry] .
  next
    case new
    have "above K m0 (AList.update ?u (r(''id'' \<mapsto> JInt (m + 1))) D)"
    proof (rule aboveI)
      fix k j assume a: "(k, j) \<in> set (AList.update ?u (r(''id'' \<mapsto> JInt (m + 1))) D)"
        and k: "k \<notin> K"
      from d a show "\<exists>n. get j ''id'' = JInt n \<and> m0 < n"
      proof (cases rule: update_cases)
        case 1
        then have "get j ''id'' = JInt (m + 1)" by (simp add: get_upd_same)
        with Cons.prems(3) show ?thesis by simp
      next
        case 2
        from aboveD [OF Cons.prems(1) 2(2) k] show ?thesis .
      qed
    qed
    moreover have "m0 \<le> m + 1" using Cons.prems(3) by simp
    ultimately show ?thesis
      unfolding overlay_new [where keep = keep, OF new]
      using Cons.IH [OF _ distinct_update [OF d]] by meson
  qed
qed

lemma backfill_above:
  assumes a: "above K m0 D" and m: "m0 \<le> m"
  shows "above K m0 (backfill src m D)"
proof (rule aboveI)
  fix k j1 assume b: "(k, j1) \<in> set (backfill src m D)" and k: "k \<notin> K"
  from in_backfill [OF b] obtain j where j: "(k, j) \<in> set D" "filled src m j j1" by meson
  from j(2) show "\<exists>n. get j1 ''id'' = JInt n \<and> m0 < n"
  proof (cases rule: filled_id)
    case 1
    with aboveD [OF a j(1) k] show ?thesis by simp
  next
    case (2 n)
    with m show ?thesis by simp
  qed
qed

lemma merge_above:
  assumes st: "id_stable keep" and j: "j \<in> set (merge_core keep src c f)"
    and new: "url_key j \<notin> url_key ` set c"
  shows "\<exists>n. get j ''id'' = JInt n \<and> scan_max_id 0 c < n"
proof -
  let ?K = "url_key ` set c" and ?S = "seed keep [] c" and ?m = "scan_max_id 0 c"
  have d: "distinct (map fst ?S)"
    using keyed_seed [OF keyed_Nil, of keep c] by (simp add: keyed_def)
  have "fst ` set ?S \<subseteq> ?K" by (auto simp: keys_seed)
  then have s: "above ?K ?m ?S"
    by (intro aboveI) (metis fst_conv image_eqI subsetD)
  from overlay_above [OF s d order_refl, of keep f]
  have "above ?K ?m (merge_dict keep src c f)"
    unfolding merge_dict_unfold by (intro backfill_above) simp_all
  moreover from j obtain k where kj: "(k, j) \<in> set (merge_dict keep src c f)"
    by (auto simp: set_merge_core)
  moreover have "url_key j = k"
    using keyed_merge_dict [OF st, of src c f] kj unfolding keyed_def by auto
  ultimately show ?thesis using new aboveD by metis
qed

text \<open>The language tests of the four merges, and the statements in the form the
  claims use.\<close>

lemma id_stable_True: "id_stable (\<lambda>r. True)"
  by (simp add: id_stable_def)

lemma id_stable_talent: "id_stable (talent_keep filter_lang)"
  by (simp add: id_stable_def talent_keep_def get_def)

lemma core_unique:
  assumes "id_stable keep" and "ids_valid c"
  shows "unique_urls_ids (merge_core keep src c f)"
  unfolding unique_urls_ids_def list_all_iff pos_id_iff
  using merge_distinct_urls [OF assms(1), where src = src and c = c and f = f]
    merge_ids [OF assms, where src = src and f = f]
  by blast

lemma unique_ids_valid: "unique_urls_ids out \<Longrightarrow> ids_valid out"
  unfolding unique_urls_ids_def ids_valid_def list_all_iff
  by (metis distinct_map inj_on_def)

lemma core_keeps:
  assumes "id_stable keep" and "r \<in> set c" and "url_key r \<noteq> []" and "keep r"
  shows "url_key r \<in> url_key ` set (merge_core keep src c f)"
  unfolding merge_keys [OF assms(1)] using assms(2-4) by blast

lemma strip_blank:
  assumes "list_all is_space s"
  shows "strip s = []"
proof -
  have "\<forall>c \<in> set s. is_space c" using assms by (simp add: list_all_iff)
  then have "dropWhile is_space s = []" by (rule iffD2 [OF dropWhile_eq_Nil_conv])
  then show ?thesis by (simp only: strip_def dropWhile.simps rev.simps)
qed

lemma blank_url_key: "blank_url r \<Longrightarrow> url_key r = []"
  by (auto simp: blank_url_def url_key_def get_def py_or_def strip_blank
      split: option.splits jval.splits)

lemma core_no_blank:
  assumes "id_stable keep" and "url_key r = []"
  shows "r \<notin> set (merge_core keep src c f)"
  using merge_entry(1) [OF assms(1)] assms(2) by blast

lemma core_new_above:
  assumes "id_stable keep" and "r \<in> set c" and "py_int (get r ''id'') = Some n"
  shows "new_ids_above n c (merge_core keep src c f)"
proof -
  have b: "n \<le> scan_max_id 0 c" using assms(2,3) by (rule scan_max_id_bound)
  have "url_key j \<in> url_key ` set c \<or> (case get j ''id'' of JInt m \<Rightarrow> n < m | _ \<Rightarrow> False)"
    if "j \<in> set (merge_core keep src c f)" for j
  proof (cases "url_key j \<in> url_key ` set c")
    case True
    then show ?thesis by simp
  next
    case False
    from merge_above [OF assms(1) that False] obtain m where
      "get j ''id'' = JInt m" "scan_max_id 0 c < m" by blast
    with b show ?thesis by simp
  qed
  then show ?thesis unfolding new_ids_above_def list_all_iff by blast
qed

lemma core_new_stored:
  assumes st: "id_stable keep" and all: "\<And>r. keep r"
    and r: "r \<in> set c" "py_int (get r ''id'') = Some n"
  shows "new_urls_stored n c f (merge_core keep src c f)"
proof -
  have b: "n \<le> scan_max_id 0 c" using r by (rule scan_max_id_bound)
  have "url_key x = [] \<or> url_key x \<in> url_key ` set c \<or>
        list_ex (\<lambda>j. url_key j = url_key x \<and>
                      (case get j ''id'' of JInt m \<Rightarrow> n < m | _ \<Rightarrow> False))
          (merge_core keep src c f)"
    if x: "x \<in> set f" for x
  proof (cases "url_key x = [] \<or> url_key x \<in> url_key ` set c")
    case True
    then show ?thesis by blast
  next
    case False
    then have "url_key x \<in> {url_key r |r. r \<in> set f \<and> url_key r \<noteq> [] \<and> keep r}"
      using x all by blast
    then have "url_key x \<in> url_key ` set (merge_core keep src c f)"
      unfolding merge_keys [OF st] by blast
    then obtain j where j: "j \<in> set (merge_core keep src c f)" "url_key j = url_key x"
      by auto
    with False have "url_key j \<notin> url_key ` set c" by simp
    from merge_above [OF st j(1) this] obtain m where
      "get j ''id'' = JInt m" "scan_max_id 0 c < m" by blast
    with b have "case get j ''id'' of JInt m \<Rightarrow> n < m | _ \<Rightarrow> False" by simp
    with j have "list_ex (\<lambda>j. url_key j = url_key x \<and>
                      (case get j ''id'' of JInt m \<Rightarrow> n < m | _ \<Rightarrow> False))
          (merge_core keep src c f)"
      unfolding list_ex_iff by blast
    then show ?thesis by blast
  qed
  then show ?thesis unfolding new_urls_stored_def list_all_iff by blast
qed

section \<open>Properties of the language filter and of the date window\<close>

lemma lower_char_not_upper:
  "\<not> (65 \<le> (of_char (lower_char c) :: nat) \<and> (of_char (lower_char c) :: nat) \<le> 90)"
proof -
  have "(of_char c :: nat) < 256" by simp
  then show ?thesis
    by (auto simp: lower_char_def Let_def)
qed

lemma maximal_run_Nil: "\<not> maximal_run P [] w"
  by (simp add: maximal_run_def)

lemma maximal_run_skip:
  assumes "\<not> P c"
  shows "maximal_run P (c # cs) w \<longleftrightarrow> maximal_run P cs w"
proof
  assume "maximal_run P (c # cs) w"
  then obtain pre post where w: "w \<noteq> []" "list_all P w"
    and e: "c # cs = pre @ w @ post"
    and b: "\<not> (pre \<noteq> [] \<and> P (last pre))" and a: "\<not> (post \<noteq> [] \<and> P (hd post))"
    unfolding maximal_run_def by blast
  have "pre \<noteq> []"
  proof
    assume "pre = []"
    with e w(1) have "hd w = c" by (cases w) auto
    with w assms show False by (cases w) auto
  qed
  then obtain pre' where p: "pre = c # pre'" using e by (cases pre) auto
  with e have e': "cs = pre' @ w @ post" by simp
  have "\<not> (pre' \<noteq> [] \<and> P (last pre'))" using b p by auto
  with w e' a show "maximal_run P cs w" unfolding maximal_run_def by blast
next
  assume "maximal_run P cs w"
  then obtain pre post where w: "w \<noteq> []" "list_all P w"
    and e: "cs = pre @ w @ post"
    and b: "\<not> (pre \<noteq> [] \<and> P (last pre))" and a: "\<not> (post \<noteq> [] \<and> P (hd post))"
    unfolding maximal_run_def by blast
  have "c # cs = (c # pre) @ w @ post" using e by simp
  moreover have "\<not> (c # pre \<noteq> [] \<and> P (last (c # pre)))" using b assms by auto
  ultimately show "maximal_run P (c # cs) w"
    using w a unfolding maximal_run_def by blast
qed

lemma maximal_run_first:
  assumes "P c"
  shows "maximal_run P (c # cs) (takeWhile P (c # cs))"
proof -
  let ?t = "takeWhile P (c # cs)" and ?d = "dropWhile P (c # cs)"
  have "?t \<noteq> []" using assms by simp
  moreover have "list_all P ?t" by (auto simp: list_all_iff dest: set_takeWhileD)
  moreover have "c # cs = [] @ ?t @ ?d" by simp
  moreover have "\<not> (?d \<noteq> [] \<and> P (hd ?d))" using hd_dropWhile [of P "c # cs"] by blast
  ultimately show ?thesis unfolding maximal_run_def by blast
qed

lemma maximal_run_later:
  assumes "P c" and m: "maximal_run P (dropWhile P cs) w"
  shows "maximal_run P (c # cs) w"
proof -
  let ?t = "takeWhile P (c # cs)" and ?d = "dropWhile P cs"
  from m obtain pre post where w: "w \<noteq> []" "list_all P w"
    and e: "?d = pre @ w @ post"
    and b: "\<not> (pre \<noteq> [] \<and> P (last pre))" and a: "\<not> (post \<noteq> [] \<and> P (hd post))"
    unfolding maximal_run_def by blast
  have "pre \<noteq> []"
  proof
    assume "pre = []"
    with e w have d: "?d \<noteq> []" "hd ?d = hd w" by (cases w; simp)+
    from w have "P (hd w)" by (cases w) auto
    with d hd_dropWhile [of P cs] show False by simp
  qed
  have "c # cs = ?t @ ?d" using assms(1) by simp
  with e have "c # cs = (?t @ pre) @ w @ post" by (metis append_assoc)
  moreover have "\<not> (?t @ pre \<noteq> [] \<and> P (last (?t @ pre)))"
    using b \<open>pre \<noteq> []\<close> by simp
  ultimately show ?thesis using w a unfolding maximal_run_def by blast
qed

lemma maximal_run_cases:
  assumes "P c" and m: "maximal_run P (c # cs) w"
  shows "w = takeWhile P (c # cs) \<or> maximal_run P (dropWhile P cs) w"
proof -
  from m obtain pre post where w: "w \<noteq> []" "list_all P w"
    and e: "c # cs = pre @ w @ post"
    and b: "\<not> (pre \<noteq> [] \<and> P (last pre))" and a: "\<not> (post \<noteq> [] \<and> P (hd post))"
    unfolding maximal_run_def by blast
  show ?thesis
  proof (cases "pre = []")
    case True
    have "takeWhile P post = []" using a by (cases post) auto
    moreover have "\<forall>x \<in> set w. P x" using w by (simp add: list_all_iff)
    ultimately have "takeWhile P (w @ post) = w" by (simp add: takeWhile_append2)
    with e True show ?thesis by simp
  next
    case False
    with b have n: "last pre \<in> set pre" "\<not> P (last pre)" by simp_all
    let ?pre' = "dropWhile P pre"
    have "dropWhile P (c # cs) = ?pre' @ w @ post"
      unfolding e using n by (rule dropWhile_append1)
    then have d: "dropWhile P cs = ?pre' @ w @ post" using assms(1) by simp
    have ne: "?pre' \<noteq> []" using n by (auto simp: dropWhile_eq_Nil_conv)
    have "pre = takeWhile P pre @ ?pre'" by simp
    then have "last pre = last ?pre'" using ne by (metis last_appendR)
    with n have "\<not> (?pre' \<noteq> [] \<and> P (last ?pre'))" by simp
    with w d a have "maximal_run P (dropWhile P cs) w" unfolding maximal_run_def by blast
    then show ?thesis ..
  qed
qed

lemma runs_iff: "w \<in> set (runs P s) \<longleftrightarrow> maximal_run P s w"
proof (induction P s rule: runs.induct)
  case (1 P)
  show ?case by (simp add: maximal_run_Nil)
next
  case (2 P c cs)
  show ?case
  proof (cases "P c")
    case True
    with 2 have "w \<in> set (runs P (c # cs)) \<longleftrightarrow>
        w = takeWhile P (c # cs) \<or> maximal_run P (dropWhile P cs) w"
      by simp
    also have "\<dots> \<longleftrightarrow> maximal_run P (c # cs) w"
      using maximal_run_first [of P c cs] maximal_run_later [of P c cs w]
        maximal_run_cases [of P c cs w] True
      by blast
    finally show ?thesis .
  next
    case False
    with 2 show ?thesis by (simp add: maximal_run_skip)
  qed
qed

lemma set_findall3: "set (findall3 P text) = spec_tokens P text"
  by (auto simp: findall3_def spec_tokens_def runs_iff)

lemma runs_cong: "(\<And>c. c \<in> set s \<Longrightarrow> P c = Q c) \<Longrightarrow> runs P s = runs Q s"
proof (induction P s rule: runs.induct)
  case (1 P)
  show ?case by simp
next
  case (2 P c cs)
  have c: "P c = Q c" using 2(3) [of c] by simp
  have r: "P x = Q x" if "x \<in> set cs" for x using 2(3) [of x] that by simp
  have t: "takeWhile P cs = takeWhile Q cs"
    by (rule takeWhile_cong) (simp_all add: r)
  have d: "dropWhile P cs = dropWhile Q cs"
    by (rule dropWhile_cong) (simp_all add: r)
  show ?case
  proof (cases "P c")
    case True
    have "runs P (dropWhile P cs) = runs Q (dropWhile P cs)"
    proof (rule 2(1) [OF True])
      fix x assume "x \<in> set (dropWhile P cs)"
      then have "x \<in> set cs" by (rule set_dropWhileD)
      then show "P x = Q x" by (rule r)
    qed
    with True c t d show ?thesis by simp
  next
    case False
    have "runs P cs = runs Q cs"
      by (rule 2(2) [OF False]) (rule r)
    with False c show ?thesis by simp
  qed
qed

lemma overlap_card:
  assumes "distinct hints"
  shows "overlap tokens hints = card (set tokens \<inter> set hints)"
proof -
  have "distinct (filter (\<lambda>h. h \<in> set tokens) hints)" using assms by simp
  then have "overlap tokens hints = card (set (filter (\<lambda>h. h \<in> set tokens) hints))"
    unfolding overlap_def by (rule distinct_card [symmetric])
  also have "set (filter (\<lambda>h. h \<in> set tokens) hints) = set tokens \<inter> set hints" by auto
  finally show ?thesis .
qed

lemma char_eq_code: "c = d \<longleftrightarrow> (of_char c :: nat) = of_char d"
  by auto

lemma ascii_letter_lower:
  assumes "c \<in> set (lower x)"
  shows "ascii_letter c \<longleftrightarrow> CHR ''a'' \<le> c \<and> c \<le> CHR ''z''"
proof -
  from assms obtain c0 where "c = lower_char c0" by (auto simp: lower_def)
  with lower_char_not_upper [of c0]
  have "\<not> (65 \<le> (of_char c :: nat) \<and> (of_char c :: nat) \<le> 90)" by simp
  then show ?thesis
    by (auto simp: ascii_letter_def Let_def less_eq_char_def)
qed

lemma french_letter_class:
  "french_letter c \<longleftrightarrow>
     (CHR ''a'' \<le> c \<and> c \<le> CHR ''z'') \<or>
     c \<in> set [CHR 0xE0, CHR 0xE2, CHR 0xE7, CHR 0xE9, CHR 0xE8, CHR 0xEA, CHR 0xEB, CHR 0xEE,
              CHR 0xEF, CHR 0xF4, CHR 0xFB, CHR 0xF9, CHR 0xFC, CHR 0xFF, CHR 0xF1, CHR 0xE6]"
  by (simp add: french_letter_def Let_def less_eq_char_def char_eq_code [of c])

lemma jobroom_token_set:
  "set (jobroom_tokens row) =
     spec_tokens (\<lambda>c. CHR ''a'' \<le> c \<and> c \<le> CHR ''z'')
       (lower (py_str (py_or (get row ''title'') (JStr [])) @ '' '' @
               py_str (py_or (get row ''description'') (JStr []))))"
proof -
  let ?x = "py_str (py_or (get row ''title'') (JStr [])) @ '' '' @
            py_str (py_or (get row ''description'') (JStr []))"
  have "runs ascii_letter (lower ?x) = runs (\<lambda>c. CHR ''a'' \<le> c \<and> c \<le> CHR ''z'') (lower ?x)"
    by (rule runs_cong) (rule ascii_letter_lower)
  then have "findall3 ascii_letter (lower ?x) =
      findall3 (\<lambda>c. CHR ''a'' \<le> c \<and> c \<le> CHR ''z'') (lower ?x)"
    by (simp add: findall3_def)
  then show ?thesis
    by (simp only: jobroom_tokens_def job_text_def set_findall3)
qed

lemma french_letter_fun:
  "french_letter =
     (\<lambda>c. (CHR ''a'' \<le> c \<and> c \<le> CHR ''z'') \<or>
        c \<in> set [CHR 0xE0, CHR 0xE2, CHR 0xE7, CHR 0xE9, CHR 0xE8, CHR 0xEA, CHR 0xEB, CHR 0xEE,
                 CHR 0xEF, CHR 0xF4, CHR 0xFB, CHR 0xF9, CHR 0xFC, CHR 0xFF, CHR 0xF1, CHR 0xE6])"
  by (rule ext) (rule french_letter_class)

lemma talent_token_set:
  "set (talent_tokens title description) =
     spec_tokens
       (\<lambda>c. (CHR ''a'' \<le> c \<and> c \<le> CHR ''z'') \<or>
          c \<in> set [CHR 0xE0, CHR 0xE2, CHR 0xE7, CHR 0xE9, CHR 0xE8, CHR 0xEA, CHR 0xEB, CHR 0xEE,
                   CHR 0xEF, CHR 0xF4, CHR 0xFB, CHR 0xF9, CHR 0xFC, CHR 0xFF, CHR 0xF1, CHR 0xE6])
       (lower (py_str (py_or title (JStr [])) @ '' '' @ py_str (py_or description (JStr []))))"
  unfolding talent_tokens_def job_text_def set_findall3
  by (simp only: french_letter_fun)

lemma distinct_hints:
  "distinct jobroom_FR_HINTS" "distinct jobroom_EN_HINTS" "distinct jobroom_DE_HINTS"
  "distinct IT_HINTS" "distinct talent_FR_HINTS" "distinct talent_EN_HINTS"
  "distinct talent_DE_HINTS"
  by (simp_all add: jobroom_FR_HINTS_def jobroom_EN_HINTS_def jobroom_DE_HINTS_def IT_HINTS_def
      talent_FR_HINTS_def talent_EN_HINTS_def talent_DE_HINTS_def)

lemma tagged_french_iff:
  "tagged_french row \<longleftrightarrow>
     (\<exists>xs s. get row ''language_codes'' = JList xs s \<and>
        (\<exists>x. x \<in> set xs \<and> lower (py_str x) = ''fr''))"
  by (auto simp: tagged_french_def list_ex_iff split: jval.splits)

lemma is_french_job_counts:
  "is_french_job row \<longleftrightarrow>
     tagged_french row \<or>
     spec_accepts (set (jobroom_tokens row)) (set jobroom_FR_HINTS)
       [set jobroom_EN_HINTS, set jobroom_DE_HINTS, set IT_HINTS]"
  by (auto simp: is_french_job_def spec_accepts_def Let_def overlap_card distinct_hints)

lemma is_allowed_language_counts:
  "is_allowed_language title description \<longleftrightarrow>
     spec_accepts (set (talent_tokens title description)) (set talent_FR_HINTS)
       [set talent_EN_HINTS, set talent_DE_HINTS, set IT_HINTS] \<or>
     spec_accepts (set (talent_tokens title description)) (set talent_EN_HINTS)
       [set talent_FR_HINTS, set talent_DE_HINTS, set IT_HINTS]"
  by (auto simp: is_allowed_language_def spec_accepts_def Let_def overlap_card distinct_hints)

lemma hint_sets:
  "set jobroom_FR_HINTS =
     {''avec'', ''pour'', ''poste'', ''vous'', ''nous'', ''experience'', ''equipe'', ''mission'',
      ''competences'', ''formation'', ''travail'', ''emploi'', ''profil'', ''francais'',
      ''responsable'', ''gestion'', ''assurer'', ''recherche'', ''candidat''}"
  "set jobroom_EN_HINTS =
     {''with'', ''for'', ''you'', ''team'', ''experience'', ''job'', ''position'', ''skills'',
      ''work'', ''english''}"
  "set jobroom_DE_HINTS =
     {''mit'', ''fur'', ''sie'', ''erfahrung'', ''stelle'', ''aufgaben'', ''kenntnisse'',
      ''arbeit'', ''deutsch''}"
  "set IT_HINTS =
     {''con'', ''per'', ''lavoro'', ''posizione'', ''esperienza'', ''richiesto'', ''competenze'',
      ''squadra''}"
  "set talent_FR_HINTS =
     {''avec'', ''pour'', ''poste'', ''vous'', ''nous'', ''experience'',
      ''exp'' @ [CHR 0xE9] @ ''rience'', ''equipe'', [CHR 0xE9] @ ''quipe'', ''mission'',
      ''competences'', ''comp'' @ [CHR 0xE9] @ ''tences'', ''formation'', ''travail'',
      ''emploi'', ''profil'', ''francais'', ''fran'' @ [CHR 0xE7] @ ''ais'', ''responsable'',
      ''gestion'', ''assurer'', ''recherche'', ''candidat''}"
  "set talent_EN_HINTS =
     {''with'', ''for'', ''you'', ''team'', ''experience'', ''job'', ''position'', ''skills'',
      ''work'', ''english'', ''required''}"
  "set talent_DE_HINTS =
     {''mit'', ''f'' @ [CHR 0xFC] @ ''r'', ''sie'', ''erfahrung'', ''stelle'', ''aufgaben'',
      ''kenntnisse'', ''arbeit'', ''deutsch''}"
  unfolding jobroom_FR_HINTS_def jobroom_EN_HINTS_def jobroom_DE_HINTS_def IT_HINTS_def
    talent_FR_HINTS_def talent_EN_HINTS_def talent_DE_HINTS_def
  by (simp_all only: list.set)

lemma within_days_iff:
  "within_days fromisoformat today posting_date max_days \<longleftrightarrow>
     max_days = None \<or>
     (\<exists>s day. posting_date = Some s \<and> s \<noteq> [] \<and> fromisoformat s = Some day \<and>
        0 \<le> today - day \<and> today - day \<le> the max_days)"
  by (auto simp: within_days_def Let_def split: option.splits)

section \<open>Properties of the saved state\<close>

lemma finite_urls_of: "finite (urls_of jobs)"
  by (simp add: urls_of_def)


lemma set_jobup_finish:
  "finite known \<Longrightarrow>
   set (seen_urls (jobup_finish fromisoformat today incremental md known existing_jobs
          master_jobs unique_links fetched_jobs)) =
     known \<union> set unique_links \<union>
       urls_of (if incremental
                then jobup_merge_jobs_by_url existing_jobs
                       (jobup_merge_jobs_by_url master_jobs fetched_jobs)
                else jobup_merge_jobs_by_url existing_jobs fetched_jobs)"
  by (simp add: jobup_finish_def Let_def finite_urls_of)






section \<open>Properties of the crawl\<close>

lemma requested_scan_links [simp]:
  "requested (scan_links sas known st page_links) = requested st"
  by (induction page_links arbitrary: st) (simp_all add: Let_def)

lemma stops_Nil [simp]: "stops_at_zero_links s []"
  by (simp add: stops_at_zero_links_def)

lemma stops_single [simp]: "stops_at_zero_links s [page]"
  by (simp add: stops_at_zero_links_def)

lemma stops_Cons:
  "\<not> zero_links s page \<Longrightarrow> stops_at_zero_links s pages \<Longrightarrow> stops_at_zero_links s (page # pages)"
  by (cases pages) (simp_all add: stops_at_zero_links_def)

lemma fetched_links_not_zero:
  assumes "fetch_search_page (session_get s page) = (Some html, False)"
    and "extract_detail_links s html \<noteq> []"
  shows "\<not> zero_links s page"
  using assms
  by (auto simp: zero_links_def fetch_search_page_def split: sum.splits response.splits if_splits)

lemma dynamic_step:
  obtains (stop) "requested (jobup_pages_dynamic s sas known st (page # rest)) =
                    requested st @ [page]"
  | (go) st1 where "\<not> zero_links s page" and "requested st1 = requested st @ [page]"
      and "jobup_pages_dynamic s sas known st (page # rest) =
             jobup_pages_dynamic s sas known st1 rest"
proof -
  let ?st0 = "st\<lparr>requested := requested st @ [page]\<rparr>"
  obtain page_html should_stop where f:
    "fetch_search_page (session_get s page) = (page_html, should_stop)"
    by (cases "fetch_search_page (session_get s page)")
  show ?thesis
  proof (cases "should_stop \<or> page_html = None \<or> page_html = Some []")
    case True
    then have "jobup_pages_dynamic s sas known st (page # rest) = ?st0"
      using f by (auto simp: Let_def)
    then show ?thesis by (intro stop) simp
  next
    case False
    then obtain html where h: "page_html = Some html" "html \<noteq> []" "\<not> should_stop"
      by auto
    let ?st1 = "scan_links sas known ?st0 (extract_detail_links s html)"
    show ?thesis
    proof (cases "extract_detail_links s html = []")
      case True
      then have "jobup_pages_dynamic s sas known st (page # rest) = ?st0"
        using f h by (simp add: Let_def)
      then show ?thesis by (intro stop) simp
    next
      case nonempty: False
      show ?thesis
      proof (cases "sas > 0 \<and> known_streak ?st1 \<ge> sas")
        case True
        then have "jobup_pages_dynamic s sas known st (page # rest) = ?st1"
          using f h nonempty by (simp add: Let_def)
        then show ?thesis by (intro stop) simp
      next
        case False
        then have "jobup_pages_dynamic s sas known st (page # rest) =
            jobup_pages_dynamic s sas known ?st1 rest"
          using f h nonempty by (auto simp: Let_def)
        moreover have "\<not> zero_links s page"
          using f h nonempty by (intro fetched_links_not_zero [of s page html]) simp_all
        moreover have "requested ?st1 = requested st @ [page]" by simp
        ultimately show ?thesis by (intro go [of ?st1])
      qed
    qed
  qed
qed

lemma dynamic_requested:
  "\<exists>k. requested (jobup_pages_dynamic s sas known st pages) = requested st @ take k pages \<and>
       stops_at_zero_links s (take k pages)"
proof (induction pages arbitrary: st)
  case Nil
  show ?case by simp
next
  case (Cons page rest)
  show ?case
  proof (cases rule: dynamic_step [of s sas known st page rest])
    case stop
    show ?thesis
      by (rule exI [of _ 1]) (simp add: stop del: jobup_pages_dynamic.simps)
  next
    case (go st1)
    from Cons.IH [of st1] obtain k where
      k: "requested (jobup_pages_dynamic s sas known st1 rest) = requested st1 @ take k rest"
        "stops_at_zero_links s (take k rest)"
      by auto
    show ?thesis
      by (rule exI [of _ "Suc k"]) (simp add: go k stops_Cons del: jobup_pages_dynamic.simps)
  qed
qed

lemma scan_links_three_known:
  assumes k: "three_known known (seen_links st) [k1, k2, k3]"
    and c: "0 \<le> known_streak st" "known_streak st < 3"
  shows "scan_links 3 known st (k1 # k2 # k3 # rest) =
         stopped_after st (take (nat (3 - known_streak st)) [k1, k2, k3])"
proof -
  from c have "known_streak st = 0 \<or> known_streak st = 1 \<or> known_streak st = 2" by arith
  then show ?thesis
  proof (elim disjE)
    assume "known_streak st = 0"
    with k show ?thesis
      by (auto simp: three_known_def stopped_after_def Let_def insert_commute)
  next
    assume "known_streak st = 1"
    with k show ?thesis
      by (auto simp: three_known_def stopped_after_def Let_def insert_commute numeral_2_eq_2)
  next
    assume "known_streak st = 2"
    with k show ?thesis
      by (auto simp: three_known_def stopped_after_def Let_def)
  qed
qed

lemma known_streak_stopped:
  assumes "0 \<le> known_streak st" "known_streak st < 3"
  shows "known_streak (stopped_after st (take (nat (3 - known_streak st)) [k1, k2, k3])) = 3"
proof -
  from assms have "known_streak st = 0 \<or> known_streak st = 1 \<or> known_streak st = 2" by arith
  then show ?thesis
    by (auto simp: stopped_after_def)
qed

lemma fetch_ok:
  "c < 400 \<Longrightarrow> fetch_search_page (Inr (Response c html)) = (Some html, False)"
  by (auto simp: fetch_search_page_def)

lemma talent_get_ok:
  "session_get s page = Inr (Response c html) \<Longrightarrow> c < 400 \<Longrightarrow> talent_get s page = Inr html"
  by (simp add: talent_get_def raise_for_status_def)

lemma pages_three_known:
  assumes k: "three_known known (seen_links st) [k1, k2, k3]"
    and c: "0 \<le> known_streak st" "known_streak st < 3"
    and g: "session_get s page = Inr (Response code html)" "code < 400" "html \<noteq> []"
    and l: "extract_detail_links s html = k1 # k2 # k3 # others"
  shows "jobup_pages_detected s 3 known st (page # rest) =
           stopped_after (st\<lparr>requested := requested st @ [page]\<rparr>)
             (take (nat (3 - known_streak st)) [k1, k2, k3])"
    and "jobup_pages_dynamic s 3 known st (page # rest) =
           stopped_after (st\<lparr>requested := requested st @ [page]\<rparr>)
             (take (nat (3 - known_streak st)) [k1, k2, k3])"
    and "talent_pages s 3 known st (page # rest) =
           Inr (stopped_after (st\<lparr>requested := requested st @ [page]\<rparr>)
             (take (nat (3 - known_streak st)) [k1, k2, k3]))"
proof -
  let ?st0 = "st\<lparr>requested := requested st @ [page]\<rparr>"
  let ?X = "stopped_after ?st0 (take (nat (3 - known_streak st)) [k1, k2, k3])"
  have k0: "three_known known (seen_links ?st0) [k1, k2, k3]" using k by simp
  have c0: "0 \<le> known_streak ?st0" "known_streak ?st0 < 3" using c by simp_all
  have sc: "scan_links 3 known ?st0 (k1 # k2 # k3 # others) = ?X"
    using scan_links_three_known [OF k0 c0, of others] by simp
  have ks: "known_streak ?X = 3"
    using known_streak_stopped [OF c0, of k1 k2 k3] by simp
  show "jobup_pages_detected s 3 known st (page # rest) = ?X"
    using ks by (simp add: g fetch_ok l sc Let_def del: scan_links.simps)
  show "jobup_pages_dynamic s 3 known st (page # rest) = ?X"
    using ks by (simp add: g fetch_ok l sc Let_def del: scan_links.simps)
  show "talent_pages s 3 known st (page # rest) = Inr ?X"
    using ks by (simp add: talent_get_ok [OF g(1,2)] l sc Let_def del: scan_links.simps)
qed

lemma dynamic_zero_links:
  "zero_links s page \<Longrightarrow>
   jobup_pages_dynamic s sas known st (page # rest) = st\<lparr>requested := requested st @ [page]\<rparr>"
  by (auto simp: zero_links_def fetch_search_page_def Let_def split: sum.splits response.splits)

lemma talent_zero_links:
  "zero_links s page \<Longrightarrow>
   talent_pages s sas known st (page # rest) =
     Inr (st\<lparr>requested := requested st @ [page]\<rparr>)"
  by (auto simp: zero_links_def talent_get_def raise_for_status_def Let_def
      split: sum.splits response.splits)

lemma talent_step:
  obtains (raise) exc where "talent_pages s sas known st (page # rest) = Inl exc"
  | (stop) st1 where "talent_pages s sas known st (page # rest) = Inr st1"
      and "requested st1 = requested st @ [page]"
  | (go) st1 where "\<not> zero_links s page" and "requested st1 = requested st @ [page]"
      and "talent_pages s sas known st (page # rest) = talent_pages s sas known st1 rest"
proof -
  let ?st0 = "st\<lparr>requested := requested st @ [page]\<rparr>"
  show ?thesis
  proof (cases "talent_get s page")
    case (Inl exc)
    then have "talent_pages s sas known st (page # rest) = Inl exc" by simp
    then show ?thesis by (rule raise)
  next
    case (Inr html)
    let ?st1 = "scan_links sas known ?st0 (extract_detail_links s html)"
    show ?thesis
    proof (cases "extract_detail_links s html = []")
      case True
      then have "talent_pages s sas known st (page # rest) = Inr ?st0"
        using Inr by simp
      then show ?thesis by (rule stop) simp
    next
      case nonempty: False
      show ?thesis
      proof (cases "sas > 0 \<and> known_streak ?st1 \<ge> sas")
        case True
        then have "talent_pages s sas known st (page # rest) = Inr ?st1"
          using Inr nonempty by (simp add: Let_def)
        then show ?thesis by (rule stop) simp
      next
        case False
        then have "talent_pages s sas known st (page # rest) = talent_pages s sas known ?st1 rest"
          using Inr nonempty by (auto simp: Let_def)
        moreover have "\<not> zero_links s page"
          using Inr nonempty
          by (auto simp: zero_links_def talent_get_def split: sum.splits response.splits)
        moreover have "requested ?st1 = requested st @ [page]" by simp
        ultimately show ?thesis by (intro go [of ?st1])
      qed
    qed
  qed
qed

lemma talent_requested:
  "case talent_pages s sas known st pages of
     Inl exc \<Rightarrow> True
   | Inr st' \<Rightarrow> (\<exists>k. requested st' = requested st @ take k pages \<and>
                      stops_at_zero_links s (take k pages))"
proof (induction pages arbitrary: st)
  case Nil
  show ?case by simp
next
  case (Cons page rest)
  show ?case
  proof (cases rule: talent_step [of s sas known st page rest])
    case (raise exc)
    then show ?thesis by (simp del: talent_pages.simps)
  next
    case (stop st1)
    have "\<exists>k. requested st1 = requested st @ take k (page # rest) \<and>
       stops_at_zero_links s (take k (page # rest))"
      by (rule exI [of _ 1]) (simp add: stop)
    then show ?thesis by (simp add: stop del: talent_pages.simps)
  next
    case (go st1)
    show ?thesis
    proof (cases "talent_pages s sas known st1 rest")
      case (Inl exc)
      then show ?thesis by (simp add: go del: talent_pages.simps)
    next
      case (Inr st')
      with Cons.IH [of st1] obtain k where
        k: "requested st' = requested st1 @ take k rest" "stops_at_zero_links s (take k rest)"
        by auto
      have "\<exists>k. requested st' = requested st @ take k (page # rest) \<and>
         stops_at_zero_links s (take k (page # rest))"
        by (rule exI [of _ "Suc k"]) (simp add: go k stops_Cons)
      then show ?thesis by (simp add: go Inr del: talent_pages.simps)
    qed
  qed
qed

lemma scan_rows_three_known:
  assumes a: "args_stop_after_seen a = 3"
    and k: "known_rows known [r1, r2, r3]"
    and c: "0 \<le> seen_streak st" "seen_streak st < 3"
  shows "scan_rows a f today known st (r1 # r2 # r3 # others) =
         st\<lparr>all_page_urls :=
              all_page_urls st @ take (nat (3 - seen_streak st)) [url_key r1, url_key r2, url_key r3],
            seen_streak := 3\<rparr>"
proof -
  from c have "seen_streak st = 0 \<or> seen_streak st = 1 \<or> seen_streak st = 2" by arith
  then show ?thesis
  proof (elim disjE)
    assume "seen_streak st = 0"
    with a k show ?thesis by (auto simp: known_rows_def Let_def)
  next
    assume "seen_streak st = 1"
    with a k show ?thesis by (auto simp: known_rows_def Let_def numeral_2_eq_2)
  next
    assume "seen_streak st = 2"
    with a k show ?thesis by (auto simp: known_rows_def Let_def)
  qed
qed

lemma jobroom_pages_three_known:
  assumes a: "args_stop_after_seen a = 3"
    and k: "known_rows known [r1, r2, r3]"
    and c: "0 \<le> seen_streak st" "seen_streak st < 3"
    and p: "\<not> (args_max_pages a > 0 \<and> page \<ge> args_max_pages a)"
    and g: "search_page page = Inr (r1 # r2 # r3 # others, total_api)"
  shows "jobroom_pages a f today search_page known page st =
         Some (st\<lparr>searched := searched st @ [page],
                  total_api_known :=
                    (if total_api_known st = None then total_api else total_api_known st),
                  all_page_urls :=
                    all_page_urls st @
                      take (nat (3 - seen_streak st)) [url_key r1, url_key r2, url_key r3],
                  seen_streak := 3\<rparr>)"
proof -
  let ?st0 = "st\<lparr>searched := searched st @ [page],
                  total_api_known :=
                    (if total_api_known st = None then total_api else total_api_known st)\<rparr>"
  have c0: "0 \<le> seen_streak ?st0" "seen_streak ?st0 < 3" using c by simp_all
  have sc: "scan_rows a f today known ?st0 (r1 # r2 # r3 # others) =
      ?st0\<lparr>all_page_urls :=
              all_page_urls ?st0 @
                take (nat (3 - seen_streak ?st0)) [url_key r1, url_key r2, url_key r3],
            seen_streak := 3\<rparr>"
    using a k c0 by (rule scan_rows_three_known)
  show ?thesis
    by (subst jobroom_pages.simps) (simp add: p g a sc Let_def del: scan_rows.simps)
qed

lemma upto_2_200: "[2..200] = 2 # [3..200]"
  by (simp add: upto_rec1)

lemma upto_2_3: "[2..3] = [2, 3]"
  by (simp add: upto_rec1)

lemmas crawl_eval =
  jobup_crawl_def talent_crawl_def jobup_page1_html_def crawl_init_def fetch_search_page_def
  talent_get_def raise_for_status_def upto_2_200 upto_2_3 Let_def

lemma jobup_fetch_fails:
  assumes "fetch_fails s page"
  shows "jobup_pages_detected s sas known st (page # rest) =
           st\<lparr>requested := requested st @ [page]\<rparr>"
    and "jobup_pages_dynamic s sas known st (page # rest) =
           st\<lparr>requested := requested st @ [page]\<rparr>"
  using assms
  by (auto simp: fetch_fails_def fetch_search_page_def Let_def split: sum.splits response.splits)

lemma talent_get_fails:
  assumes "fetch_fails s page"
  shows "\<exists>exc. talent_get s page = Inl exc"
  using assms
  by (auto simp: fetch_fails_def talent_get_def raise_for_status_def
      split: sum.splits response.splits)

lemma talent_fetch_fails:
  assumes "fetch_fails s page"
  shows "\<exists>exc. talent_pages s sas known st (page # rest) = Inl exc"
  using talent_get_fails [OF assms] by auto

lemma talent_main_fails:
  assumes "fetch_fails s 1"
  shows "\<exists>exc. talent_main s fetch_detail fromisoformat today arg_max_pages arg_max_jobs
           arg_days arg_stop_after_seen arg_allow_non_french existing_jobs auto_state = Inl exc"
  using talent_get_fails [OF assms]
  by (auto simp: talent_main_def talent_crawl_def Let_def)

lemma talent_main_crawl_fails:
  assumes "talent_crawl s arg_max_pages arg_stop_after_seen
             (load_known_urls existing_jobs auto_state) = Inl exc"
  shows "talent_main s fetch_detail fromisoformat today arg_max_pages arg_max_jobs
           arg_days arg_stop_after_seen arg_allow_non_french existing_jobs auto_state = Inl exc"
  using assms by (simp add: talent_main_def Let_def)

lemma jobroom_fetch_fails:
  assumes "\<not> (args_max_pages a > 0 \<and> page \<ge> args_max_pages a)"
    and "search_page page = Inl exc"
  shows "jobroom_pages a f today search_page known page st =
           Some (st\<lparr>searched := searched st @ [page]\<rparr>)"
  by (subst jobroom_pages.simps) (simp add: assms)

lemma requested_add_page1_links [simp]:
  "requested (add_page1_links st page1_links) = requested st"
  by (induction page1_links arbitrary: st) simp_all

lemma jobup_crawl_requested:
  assumes "extract_total_pages s (jobup_page1_html (session_get s 1)) = None"
  shows "\<exists>k. requested (jobup_crawl s arg_max_pages sas known) =
             1 # take k [2..(if arg_max_pages > 0 then arg_max_pages else 200)] \<and>
           stops_at_zero_links s (take k [2..(if arg_max_pages > 0 then arg_max_pages else 200)])"
proof -
  let ?html = "jobup_page1_html (session_get s 1)"
  let ?st = "add_page1_links (crawl_init\<lparr>requested := [1]\<rparr>)
               (if ?html \<noteq> [] then extract_detail_links s ?html else [])"
  let ?pages = "[2..(if arg_max_pages > 0 then arg_max_pages else 200)]"
  have c: "jobup_crawl s arg_max_pages sas known = jobup_pages_dynamic s sas known ?st ?pages"
    using assms by (simp add: jobup_crawl_def Let_def)
  from dynamic_requested [where s = s and sas = sas and known = known and st = ?st
      and pages = ?pages]
  obtain k where "requested (jobup_pages_dynamic s sas known ?st ?pages) =
      requested ?st @ take k ?pages" "stops_at_zero_links s (take k ?pages)"
    by blast
  then show ?thesis unfolding c by (intro exI [of _ k]) simp
qed

lemma talent_crawl_requested:
  "case talent_crawl s arg_max_pages sas known of
     Inl exc \<Rightarrow> True
   | Inr st \<Rightarrow>
       (\<exists>k. requested st = 1 # take k [2..(if arg_max_pages > 0 then arg_max_pages else 200)] \<and>
            stops_at_zero_links s
              (take k [2..(if arg_max_pages > 0 then arg_max_pages else 200)]))"
proof (cases "talent_get s 1")
  case (Inl exc)
  then show ?thesis by (simp add: talent_crawl_def)
next
  case (Inr html)
  let ?st = "add_page1_links (crawl_init\<lparr>requested := [1]\<rparr>) (extract_detail_links s html)"
  let ?pages = "[2..(if arg_max_pages > 0 then arg_max_pages else 200)]"
  have c: "talent_crawl s arg_max_pages sas known = talent_pages s sas known ?st ?pages"
    using Inr by (simp add: talent_crawl_def Let_def)
  have r: "requested ?st = [1]" by simp
  show ?thesis
    unfolding c
    using talent_requested [where s = s and sas = sas and known = known and st = ?st
        and pages = ?pages]
    by (simp only: r append_Cons append_Nil)
qed

section \<open>Properties of a second merge\<close>

lemma update_absent: "k \<notin> fst ` set D \<Longrightarrow> AList.update k v D = D @ [(k, v)]"
  by (induction D) auto

lemma update_present:
  "k \<in> fst ` set D \<Longrightarrow> distinct (map fst D) \<Longrightarrow>
   AList.update k v D = map (\<lambda>p. (fst p, if fst p = k then v else snd p)) D"
proof (induction D)
  case Nil
  then show ?case by simp
next
  case (Cons p D)
  obtain k' j' where p: "p = (k', j')" by (cases p)
  show ?case
  proof (cases "k' = k")
    case True
    then have "k \<notin> fst ` set D" using Cons.prems(2) p by auto
    then have "map (\<lambda>p. (fst p, if fst p = k then v else snd p)) D = D"
      by (induction D) auto
    with True p show ?thesis by simp
  next
    case False
    with Cons p show ?thesis by auto
  qed
qed

lemma seed_keyed_list:
  "distinct (map url_key M) \<Longrightarrow> (\<And>j. j \<in> set M \<Longrightarrow> url_key j \<noteq> [] \<and> keep j) \<Longrightarrow>
   url_key ` set M \<inter> fst ` set D0 = {} \<Longrightarrow>
   seed keep D0 M = D0 @ map (\<lambda>j. (url_key j, j)) M"
proof (induction M arbitrary: D0)
  case Nil
  then show ?case by simp
next
  case (Cons j M)
  have j: "url_key j \<noteq> []" "keep j" using Cons.prems(2) [of j] by simp_all
  have a: "url_key j \<notin> fst ` set D0" using Cons.prems(3) by auto
  have u: "AList.update (url_key j) j D0 = D0 @ [(url_key j, j)]"
    using a by (rule update_absent)
  have "seed keep (D0 @ [(url_key j, j)]) M =
      (D0 @ [(url_key j, j)]) @ map (\<lambda>j. (url_key j, j)) M"
  proof (rule Cons.IH)
    show "distinct (map url_key M)" using Cons.prems(1) by simp
    show "url_key x \<noteq> [] \<and> keep x" if "x \<in> set M" for x using Cons.prems(2) [of x] that by simp
    show "url_key ` set M \<inter> fst ` set (D0 @ [(url_key j, j)]) = {}"
      using Cons.prems(1,3) by auto
  qed
  then show ?case using j u by (simp add: Let_def)
qed

lemma backfill_all_int:
  "(\<And>k j. (k, j) \<in> set D \<Longrightarrow> is_int (get j ''id'')) \<Longrightarrow>
   backfill src m D = map (\<lambda>p. (fst p, setdefault_source src (snd p))) D"
proof (induction D arbitrary: m)
  case Nil
  show ?case by simp
next
  case (Cons p D)
  obtain k j where p: "p = (k, j)" by (cases p)
  have "is_int (get j ''id'')" using Cons.prems [of k j] p by simp
  then have i: "is_int (get (setdefault_source src j) ''id'')" by (simp add: get_id_setdefault)
  have "backfill src m D = map (\<lambda>p. (fst p, setdefault_source src (snd p))) D"
  proof (rule Cons.IH)
    fix k' j' assume "(k', j') \<in> set D"
    then have "(k', j') \<in> set (p # D)" by simp
    then show "is_int (get j' ''id'')" by (rule Cons.prems)
  qed
  with i p show ?case by (simp add: Let_def)
qed

lemma sort_desc_sorted: "sorted (map (\<lambda>j. - sort_id j) M) \<Longrightarrow> sort_desc M = M"
  unfolding sort_desc_def by (rule sort_key_id_if_sorted)

lemma sorted_merge_core: "sorted (map (\<lambda>j. - sort_id j) (merge_core keep src c f))"
  unfolding merge_core_def sort_desc_def by (rule sorted_sort_key)

lemma lastf_skip:
  "url_key r = [] \<or> \<not> keep r \<Longrightarrow> lastf keep k (r # g) = lastf keep k g"
  by (auto split: option.splits)

lemma lastf_other:
  "url_key r \<noteq> k \<Longrightarrow> lastf keep k (r # g) = lastf keep k g"
  by (auto split: option.splits)

lemma lastf_same:
  "url_key r \<noteq> [] \<Longrightarrow> keep r \<Longrightarrow>
   lastf keep (url_key r) (r # g) =
     (case lastf keep (url_key r) g of Some r' \<Rightarrow> Some r' | None \<Rightarrow> Some r)"
  by (auto split: option.splits)

lemma overlaid_skip:
  "url_key r = [] \<or> \<not> keep r \<Longrightarrow> overlaid keep (r # g) k j = overlaid keep g k j"
  unfolding overlaid_def by (simp only: lastf_skip)

lemma overlay_saturated:
  assumes "distinct (map fst D)"
    and "\<And>k j. (k, j) \<in> set D \<Longrightarrow> is_int (get j ''id'')"
    and "\<And>r. r \<in> set g \<Longrightarrow> url_key r \<noteq> [] \<Longrightarrow> keep r \<Longrightarrow> url_key r \<in> fst ` set D"
  shows "overlay keep (D, m) g = (map (\<lambda>p. (fst p, overlaid keep g (fst p) (snd p))) D, m)"
  using assms
proof (induction g arbitrary: D)
  case Nil
  show ?case by (simp add: overlaid_def)
next
  case (Cons r g)
  note d = Cons.prems(1)
  have rest: "url_key x \<in> fst ` set D" if "x \<in> set g" "url_key x \<noteq> []" "keep x" for x
    using Cons.prems(3) [of x] that by simp
  show ?case
  proof (cases "url_key r = [] \<or> \<not> keep r")
    case True
    have "overlay keep (D, m) (r # g) = overlay keep (D, m) g"
      by (rule overlay_skip [where keep = keep and r = r, OF True])
    also have "\<dots> = (map (\<lambda>p. (fst p, overlaid keep g (fst p) (snd p))) D, m)"
      using d Cons.prems(2) rest by (rule Cons.IH)
    also have "\<dots> = (map (\<lambda>p. (fst p, overlaid keep (r # g) (fst p) (snd p))) D, m)"
      by (simp only: overlaid_skip [where keep = keep and r = r, OF True])
    finally show ?thesis .
  next
    case False
    then have kr: "url_key r \<noteq> []" "keep r" by simp_all
    let ?u = "url_key r"
    have "?u \<in> fst ` set D" using Cons.prems(3) [of r] kr by simp
    then obtain e where e: "(?u, e) \<in> set D" by auto
    then have me: "map_of D ?u = Some e" using d by simp
    have ie: "is_int (get e ''id'')" using Cons.prems(2) [OF e] .
    let ?v = "r(''id'' \<mapsto> get e ''id'')"
    let ?D1 = "AList.update ?u ?v D"
    have step: "overlay keep (D, m) (r # g) = overlay keep (?D1, m) g"
      using kr me ie by (rule overlay_carry)
    have D1: "?D1 = map (\<lambda>p. (fst p, if fst p = ?u then ?v else snd p)) D"
      using \<open>?u \<in> fst ` set D\<close> d by (rule update_present)
    have d1: "distinct (map fst ?D1)" using d by (rule distinct_update)
    have i1: "is_int (get j ''id'')" if "(k, j) \<in> set ?D1" for k j
      using d that
    proof (cases rule: update_cases)
      case 1
      then show ?thesis using ie by (simp add: get_upd_same)
    next
      case 2
      then show ?thesis using Cons.prems(2) by blast
    qed
    have k1: "url_key x \<in> fst ` set ?D1" if "x \<in> set g" "url_key x \<noteq> []" "keep x" for x
      using rest [OF that] by (simp add: D1 image_image)
    have "overlay keep (?D1, m) g =
        (map (\<lambda>p. (fst p, overlaid keep g (fst p) (snd p))) ?D1, m)"
      using d1 i1 k1 by (rule Cons.IH)
    also have "map (\<lambda>p. (fst p, overlaid keep g (fst p) (snd p))) ?D1 =
        map (\<lambda>p. (fst p, overlaid keep (r # g) (fst p) (snd p))) D"
      unfolding D1 map_map
    proof (rule map_cong [OF refl])
      fix p assume p: "p \<in> set D"
      obtain k j where pk: "p = (k, j)" by (cases p)
      show "((\<lambda>p. (fst p, overlaid keep g (fst p) (snd p))) \<circ>
             (\<lambda>p. (fst p, if fst p = ?u then ?v else snd p))) p =
            (fst p, overlaid keep (r # g) (fst p) (snd p))"
      proof (cases "k = ?u")
        case True
        then have "j = e" using d p pk e by (metis eq_key_imp_eq_value)
        with True pk kr show ?thesis
          by (auto simp: overlaid_def get_upd_same split: option.splits)
      next
        case False
        then have "url_key r \<noteq> k" by simp
        then have "lastf keep k (r # g) = lastf keep k g" by (rule lastf_other)
        with False pk show ?thesis
          by (simp add: overlaid_def del: lastf.simps split: option.splits)
      qed
    qed
    finally show ?thesis by (simp only: step)
  qed
qed

lemma lastf_Cons_None:
  assumes "lastf keep k (r # g) = None"
  shows "lastf keep k g = None" and "\<not> (url_key r = k \<and> k \<noteq> [] \<and> keep r)"
  using assms by (auto split: option.splits if_splits)

lemma overlay_untouched:
  "distinct (map fst D) \<Longrightarrow> lastf keep k g = None \<Longrightarrow>
   (k, j) \<in> set (fst (overlay keep (D, m) g)) \<longleftrightarrow> (k, j) \<in> set D"
proof (induction g arbitrary: D m)
  case Nil
  show ?case by simp
next
  case (Cons r g)
  note d = Cons.prems(1)
  note n = lastf_Cons_None [OF Cons.prems(2)]
  show ?case
  proof (cases rule: overlay_cases [where r = r and keep = keep and D = D])
    case skip
    show ?thesis
      unfolding overlay_skip [where keep = keep and r = r, OF skip]
      using d n(1) by (rule Cons.IH)
  next
    case (carry e)
    then have ne: "k \<noteq> url_key r" using n(2) by auto
    let ?D1 = "AList.update (url_key r) (r(''id'' \<mapsto> get e ''id'')) D"
    have "(k, j) \<in> set (fst (overlay keep (?D1, m) g)) \<longleftrightarrow> (k, j) \<in> set ?D1"
      using distinct_update [OF d] n(1) by (rule Cons.IH)
    also have "\<dots> \<longleftrightarrow> (k, j) \<in> set D" using ne by (simp add: in_update [OF d])
    finally show ?thesis unfolding overlay_carry [where keep = keep, OF carry] .
  next
    case new
    then have ne: "k \<noteq> url_key r" using n(2) by auto
    let ?D1 = "AList.update (url_key r) (r(''id'' \<mapsto> JInt (m + 1))) D"
    have "(k, j) \<in> set (fst (overlay keep (?D1, m + 1) g)) \<longleftrightarrow> (k, j) \<in> set ?D1"
      using distinct_update [OF d] n(1) by (rule Cons.IH)
    also have "\<dots> \<longleftrightarrow> (k, j) \<in> set D" using ne by (simp add: in_update [OF d])
    finally show ?thesis unfolding overlay_new [where keep = keep, OF new] .
  qed
qed

lemma overlay_entry_last:
  "distinct (map fst D) \<Longrightarrow> lastf keep k g = Some r \<Longrightarrow>
   (k, j) \<in> set (fst (overlay keep (D, m) g)) \<Longrightarrow> \<exists>v. is_int v \<and> j = r(''id'' \<mapsto> v)"
proof (induction g arbitrary: D m)
  case Nil
  then show ?case by simp
next
  case (Cons r0 g)
  note d = Cons.prems(1)
  show ?case
  proof (cases "lastf keep k g")
    case (Some r')
    then have r': "r' = r" using Cons.prems(2) by simp
    show ?thesis
    proof (cases rule: overlay_cases [where r = r0 and keep = keep and D = D])
      case skip
      from Cons.prems(3) show ?thesis
        unfolding overlay_skip [where keep = keep and r = r0, OF skip]
        using Cons.IH [OF d] Some r' by blast
    next
      case (carry e)
      from Cons.prems(3) show ?thesis
        unfolding overlay_carry [where keep = keep, OF carry]
        using Cons.IH [OF distinct_update [OF d]] Some r' by blast
    next
      case new
      from Cons.prems(3) show ?thesis
        unfolding overlay_new [where keep = keep, OF new]
        using Cons.IH [OF distinct_update [OF d]] Some r' by blast
    qed
  next
    case None
    then have r0: "r0 = r" "url_key r = k" "k \<noteq> []" "keep r"
      using Cons.prems(2) by (auto split: if_splits)
    show ?thesis
    proof (cases rule: overlay_cases [where r = r0 and keep = keep and D = D])
      case skip
      with r0 show ?thesis by simp
    next
      case (carry e)
      let ?D1 = "AList.update (url_key r0) (r0(''id'' \<mapsto> get e ''id'')) D"
      from Cons.prems(3) have "(k, j) \<in> set (fst (overlay keep (?D1, m) g))"
        unfolding overlay_carry [where keep = keep, OF carry] .
      then have "(k, j) \<in> set ?D1"
        using overlay_untouched [OF distinct_update [OF d] None] by blast
      then have "j = r0(''id'' \<mapsto> get e ''id'')"
        using r0 by (simp add: in_update [OF d])
      with carry(4) r0 show ?thesis by blast
    next
      case new
      let ?D1 = "AList.update (url_key r0) (r0(''id'' \<mapsto> JInt (m + 1))) D"
      from Cons.prems(3) have "(k, j) \<in> set (fst (overlay keep (?D1, m + 1) g))"
        unfolding overlay_new [where keep = keep, OF new] .
      then have "(k, j) \<in> set ?D1"
        using overlay_untouched [OF distinct_update [OF d] None] by blast
      then have "j = r0(''id'' \<mapsto> JInt (m + 1))"
        using r0 by (simp add: in_update [OF d])
      with r0 show ?thesis using is_int_JInt by blast
    qed
  qed
qed

lemma merge_entry_last:
  assumes st: "id_stable keep" and j: "j \<in> set (merge_core keep src c f)"
    and l: "lastf keep (url_key j) f = Some r"
  shows "j = setdefault_source src (r(''id'' \<mapsto> get j ''id''))"
proof -
  let ?S = "seed keep [] c" and ?m = "scan_max_id 0 c"
  let ?O = "overlay keep (?S, ?m) f"
  from j obtain k where kj: "(k, j) \<in> set (merge_dict keep src c f)"
    by (auto simp: set_merge_core)
  have k: "url_key j = k"
    using keyed_merge_dict [OF st, of src c f] kj unfolding keyed_def by auto
  from kj obtain j0 where j0: "(k, j0) \<in> set (fst ?O)" "filled src (snd ?O) j0 j"
    unfolding merge_dict_unfold using in_backfill by blast
  have d: "distinct (map fst ?S)"
    using keyed_seed [OF keyed_Nil, of keep c] by (simp add: keyed_def)
  from overlay_entry_last [OF d, of keep k f r j0 ?m] l k j0(1)
  obtain v where v: "is_int v" "j0 = r(''id'' \<mapsto> v)" by blast
  then have i0: "is_int (get j0 ''id'')" by (simp add: get_upd_same)
  from j0(2) i0 have e: "j = setdefault_source src j0"
    unfolding filled_def by blast
  have "get j ''id'' = v" using e v by (simp add: get_id_setdefault get_upd_same)
  with e v show ?thesis by simp
qed

lemma remerge:
  assumes st: "id_stable keep"
    and cover: "\<And>r. r \<in> set g \<Longrightarrow> url_key r \<noteq> [] \<Longrightarrow> keep r \<Longrightarrow>
                  url_key r \<in> url_key ` set (merge_core keep src c f)"
    and same: "\<And>j r. j \<in> set (merge_core keep src c f) \<Longrightarrow> lastf keep (url_key j) g = Some r \<Longrightarrow>
                setdefault_source src (r(''id'' \<mapsto> get j ''id'')) = j"
  shows "merge_core keep src (merge_core keep src c f) g = merge_core keep src c f"
proof -
  let ?M = "merge_core keep src c f"
  let ?D = "map (\<lambda>j. (url_key j, j)) ?M"
  let ?D' = "map (\<lambda>p. (fst p, overlaid keep g (fst p) (snd p))) ?D"
  have F1: "distinct (map url_key ?M)" using st by (rule merge_distinct_urls)
  have F2: "url_key j \<noteq> [] \<and> keep j" if "j \<in> set ?M" for j
    using merge_entry(1,2) [OF st that] by simp
  have F2i: "is_int (get j ''id'')" if "j \<in> set ?M" for j
    using merge_entry(3) [OF st that] .
  have F2s: "setdefault_source src j = j" if "j \<in> set ?M" for j
    using merge_entry(4) [OF st that] .
  have seed: "seed keep [] ?M = ?D"
    using seed_keyed_list [OF F1 F2, of "[]"] by simp
  have dD: "distinct (map fst ?D)" using F1 by (simp add: comp_def)
  have iD: "is_int (get j ''id'')" if "(k, j) \<in> set ?D" for k j
    using that F2i by auto
  have cD: "url_key r \<in> fst ` set ?D" if "r \<in> set g" "url_key r \<noteq> []" "keep r" for r
    using cover [OF that] by (simp add: image_image)
  have ov: "overlay keep (?D, scan_max_id 0 ?M) g = (?D', scan_max_id 0 ?M)"
    using dD iD cD by (rule overlay_saturated)
  have iD': "is_int (get j ''id'')" if "(k, j) \<in> set ?D'" for k j
  proof -
    from that obtain j0 where j0: "j0 \<in> set ?M" "j = overlaid keep g (url_key j0) j0"
      by auto
    then show ?thesis
      using F2i [OF j0(1)] by (auto simp: overlaid_def get_upd_same split: option.splits)
  qed
  have bf: "backfill src (scan_max_id 0 ?M) ?D' =
      map (\<lambda>p. (fst p, setdefault_source src (snd p))) ?D'"
    using iD' by (rule backfill_all_int)
  have "map snd (merge_dict keep src ?M g) =
      map (\<lambda>j. setdefault_source src (overlaid keep g (url_key j) j)) ?M"
    unfolding merge_dict_unfold seed ov fst_conv snd_conv bf by (simp add: comp_def)
  also have "\<dots> = map (\<lambda>j. j) ?M"
  proof (rule map_cong [OF refl])
    fix j assume j: "j \<in> set ?M"
    show "setdefault_source src (overlaid keep g (url_key j) j) = j"
    proof (cases "lastf keep (url_key j) g")
      case None
      then show ?thesis using F2s [OF j] by (simp add: overlaid_def)
    next
      case (Some r)
      then show ?thesis using same [OF j Some] by (simp add: overlaid_def)
    qed
  qed
  finally have "map snd (merge_dict keep src ?M g) = ?M" by simp
  then have "merge_core keep src ?M g = sort_desc ?M" by (simp add: merge_core_def)
  also have "\<dots> = ?M" using sorted_merge_core by (rule sort_desc_sorted)
  finally show ?thesis .
qed

lemma lastf_Some:
  "lastf keep k g = Some r \<Longrightarrow> r \<in> set g \<and> url_key r = k \<and> k \<noteq> [] \<and> keep r"
  by (induction g) (auto split: option.splits if_splits)

lemma merge_core_idempotent:
  assumes st: "id_stable keep"
  shows "merge_core keep src (merge_core keep src c f) f = merge_core keep src c f"
proof (rule remerge [OF st])
  fix r assume "r \<in> set f" "url_key r \<noteq> []" "keep r"
  then show "url_key r \<in> url_key ` set (merge_core keep src c f)"
    unfolding merge_keys [OF st] by blast
next
  fix j r assume "j \<in> set (merge_core keep src c f)" "lastf keep (url_key j) f = Some r"
  then show "setdefault_source src (r(''id'' \<mapsto> get j ''id'')) = j"
    using merge_entry_last [OF st] by metis
qed

lemma wrote_same:
  assumes st: "id_stable keep" and w: "wrote src out r r'"
  shows "url_key r' = url_key r" and "keep r' = keep r"
  using w unfolding wrote_def list_ex_iff
  by (auto simp: url_key_upd_id url_key_setdefault keep_upd_id [OF st] keep_setdefault [OF st])

lemma lastf_written:
  assumes st: "id_stable keep"
  shows "list_all2 (wrote src out) f g \<Longrightarrow>
         rel_option (wrote src out) (lastf keep k f) (lastf keep k g)"
proof (induction f g rule: list_all2_induct)
  case Nil
  show ?case by simp
next
  case (Cons x xs y ys)
  note same = wrote_same [OF st Cons.hyps(1)]
  show ?case
  proof (cases "lastf keep k xs")
    case None
    with Cons.IH have "lastf keep k ys = None" by simp
    with None same Cons.hyps(1) show ?thesis by simp
  next
    case (Some r)
    with Cons.IH obtain r' where "lastf keep k ys = Some r'" "wrote src out r r'"
      by (cases "lastf keep k ys") simp_all
    with Some show ?thesis by simp
  qed
qed

lemma get_is_int_upd:
  assumes "is_int (get j ''id'')"
  shows "j(''id'' \<mapsto> get j ''id'') = j"
proof -
  from assms have "j ''id'' = Some (get j ''id'')"
    by (cases "j ''id''") (simp_all add: get_def is_int_def)
  then show ?thesis by (rule fun_upd_idem)
qed

lemma merge_core_written:
  assumes st: "id_stable keep" and w: "written_back src (merge_core keep src c f) f g"
  shows "merge_core keep src (merge_core keep src c f) g = merge_core keep src c f"
proof (rule remerge [OF st])
  let ?M = "merge_core keep src c f"
  from w have l2: "list_all2 (wrote src ?M) f g" by (simp add: written_back_def)
  {
    fix r' assume r': "r' \<in> set g" "url_key r' \<noteq> []" "keep r'"
    from l2 r'(1) obtain r where r: "r \<in> set f" "wrote src ?M r r'"
      by (metis list_all2_conv_all_nth in_set_conv_nth)
    from wrote_same [OF st r(2)] r' have "url_key r \<noteq> []" "keep r" "url_key r' = url_key r"
      by simp_all
    with r(1) show "url_key r' \<in> url_key ` set ?M"
      unfolding merge_keys [OF st] by auto
  next
    fix j r' assume j: "j \<in> set ?M" and l: "lastf keep (url_key j) g = Some r'"
    from lastf_written [OF st l2, of "url_key j"] l
    obtain r where r: "lastf keep (url_key j) f = Some r" "wrote src ?M r r'"
      by (cases "lastf keep (url_key j) f") simp_all
    have e: "j = setdefault_source src (r(''id'' \<mapsto> get j ''id''))"
      using st j r(1) by (rule merge_entry_last)
    have kr: "url_key r = url_key j" using lastf_Some [OF r(1)] by simp
    have uniq: "j' = j" if "j' \<in> set ?M" "url_key j' = url_key j" for j'
      using merge_distinct_urls [OF st, of src c f] that j
      by (metis distinct_map inj_onD)
    have ji: "is_int (get j ''id'')" using merge_entry(3) [OF st j] .
    have js: "setdefault_source src j = j" using merge_entry(4) [OF st j] .
    from r(2) consider "r' = r"
      | j' where "j' \<in> set ?M" "url_key j' = url_key r" "r' = r(''id'' \<mapsto> get j' ''id'')"
      | j' where "j' \<in> set ?M" "url_key j' = url_key r"
          "r' = setdefault_source src (r(''id'' \<mapsto> get j' ''id''))"
      unfolding wrote_def list_ex_iff by blast
    then show "setdefault_source src (r'(''id'' \<mapsto> get j ''id'')) = j"
    proof cases
      case 1
      with e show ?thesis by simp
    next
      case (2 j')
      then have "j' = j" using uniq kr by simp
      with 2 e show ?thesis by simp
    next
      case (3 j')
      then have "j' = j" using uniq kr by simp
      with 3 e have "r' = j" by simp
      then show ?thesis using get_is_int_upd [OF ji] js by simp
    qed
  }
qed

section \<open>The merge: URLs and ids\<close>

text \<open>
  C1, for every \<open>current\<close>, fails: the merge carries the ids of \<open>current\<close> over as they
  are. Two records of \<open>current\<close> with different URLs and the same id 5 both keep it, and
  an id 0 stays 0.
\<close>

theorem merge_copies_duplicate_ids:
  "map url_key (jobup_merge_jobs_by_url
      [[''url'' \<mapsto> JStr ''a'', ''id'' \<mapsto> JInt 5], [''url'' \<mapsto> JStr ''b'', ''id'' \<mapsto> JInt 5]] [])
     = [''a'', ''b''] \<and>
   map (\<lambda>j. get j ''id'') (jobup_merge_jobs_by_url
      [[''url'' \<mapsto> JStr ''a'', ''id'' \<mapsto> JInt 5], [''url'' \<mapsto> JStr ''b'', ''id'' \<mapsto> JInt 5]] [])
     = [JInt 5, JInt 5] \<and>
   map (\<lambda>j. get j ''id'') (ge_merge_jobs_by_url [[''url'' \<mapsto> JStr ''a'', ''id'' \<mapsto> JInt 0]] [])
     = [JInt 0]"
  by (simp add: jobup_merge_jobs_by_url_def ge_merge_jobs_by_url_def merge_core_def
      merge_dict_def sort_desc_def sort_id_def url_key_def get_def py_or_def strip_def
      is_space_def Let_def setdefault_source_def is_int_def)

text \<open>
  C1 as amended. In the output of each of the four merges no two records have the same
  canonical URL, for every \<open>current\<close> and \<open>fresh\<close>. If the integer ids of \<open>current\<close> are
  positive integers and no two records of \<open>current\<close> with different canonical URLs share
  one, then every output record has a positive integer id and no two output records have
  the same id; the output is then such a dataset itself.
\<close>

theorem merge_unique_urls_and_ids:
  "list_all (\<lambda>out. distinct (map url_key out)) (merge_outputs current fresh) \<and>
   (ids_valid current \<longrightarrow>
      list_all (\<lambda>out. unique_urls_ids out \<and> ids_valid out) (merge_outputs current fresh))"
  unfolding merge_outputs_def jobup_merge_jobs_by_url_def ge_merge_jobs_by_url_def
    jobroom_merge_jobs_by_url_def talent_merge_jobs_by_url_def
  by (simp add: merge_distinct_urls core_unique unique_ids_valid id_stable_True
      id_stable_talent)

theorem merge_unique_urls_and_ids_witness:
  "ids_valid [[''url'' \<mapsto> JStr ''a'', ''id'' \<mapsto> JInt 1], [''url'' \<mapsto> JStr ''b'']] \<and>
   list_all (\<lambda>out. unique_urls_ids out \<and> ids_valid out)
     (merge_outputs [[''url'' \<mapsto> JStr ''a'', ''id'' \<mapsto> JInt 1], [''url'' \<mapsto> JStr ''b'']]
        [[''url'' \<mapsto> JStr ''c'']])"
proof -
  have v: "ids_valid [[''url'' \<mapsto> JStr ''a'', ''id'' \<mapsto> JInt 1], [''url'' \<mapsto> JStr ''b'']]"
    by (simp add: ids_valid_def is_int_def get_def pos_id_def)
  with merge_unique_urls_and_ids
    [of "[[''url'' \<mapsto> JStr ''a'', ''id'' \<mapsto> JInt 1], [''url'' \<mapsto> JStr ''b'']]"
        "[[''url'' \<mapsto> JStr ''c'']]"]
  show ?thesis by blast
qed

text \<open>
  C3, as stated, fails twice. Talent's merge with \<open>filter_lang\<close> on applies the language
  test to the records of \<open>current\<close> as well, and drops one that fails it; and every merge
  drops a record whose \<^verbatim>\<open>url\<close> is a string of blanks, which is not empty.
\<close>

theorem merge_drops_current:
  "talent_merge_jobs_by_url [[''url'' \<mapsto> JStr ''a'']] [] True = [] \<and>
   talent_merge_jobs_by_url [[''url'' \<mapsto> JStr ''a'']] [] False \<noteq> [] \<and>
   jobup_merge_jobs_by_url [[''url'' \<mapsto> JStr ''  '']] [] = []"
proof -
  have "\<not> is_allowed_language JNull JNull"
    by code_simp
  then show ?thesis
    by (simp add: talent_merge_jobs_by_url_def jobup_merge_jobs_by_url_def merge_core_def
        merge_dict_def sort_desc_def talent_keep_def url_key_def get_def py_or_def strip_def
        is_space_def Let_def setdefault_source_def is_int_def)
qed

text \<open>
  C3 as amended. A record of \<open>current\<close> whose canonical URL (the \<^verbatim>\<open>url\<close> field as a
  string, stripped) is not empty has that canonical URL in the output of jobup's, ge's
  and jobroom's merge, and of talent's merge with \<open>filter_lang\<close> off; with \<open>filter_lang\<close>
  on, if the record passes talent's language test.
\<close>

theorem merge_keeps_current:
  assumes "r \<in> set current" and "url_key r \<noteq> []"
  shows "url_key r \<in> url_key ` set (jobup_merge_jobs_by_url current fresh) \<and>
         url_key r \<in> url_key ` set (ge_merge_jobs_by_url current fresh) \<and>
         url_key r \<in> url_key ` set (jobroom_merge_jobs_by_url current fresh) \<and>
         url_key r \<in> url_key ` set (talent_merge_jobs_by_url current fresh False) \<and>
         (is_allowed_language (get r ''title'') (get r ''description'') \<longrightarrow>
            url_key r \<in> url_key ` set (talent_merge_jobs_by_url current fresh True))"
  unfolding jobup_merge_jobs_by_url_def ge_merge_jobs_by_url_def
    jobroom_merge_jobs_by_url_def talent_merge_jobs_by_url_def
  using assms
  by (simp add: core_keeps id_stable_True id_stable_talent talent_keep_def)

theorem merge_keeps_current_witness:
  "[''url'' \<mapsto> JStr ''a''] \<in> set [[''url'' \<mapsto> JStr ''a'']] \<and>
   url_key [''url'' \<mapsto> JStr ''a''] \<noteq> [] \<and>
   url_key [''url'' \<mapsto> JStr ''a'']
     \<in> url_key ` set (jobup_merge_jobs_by_url [[''url'' \<mapsto> JStr ''a'']] [[''url'' \<mapsto> JStr ''b'']])"
proof -
  have k: "url_key [''url'' \<mapsto> JStr ''a''] \<noteq> []"
    by (simp add: url_key_def get_def py_or_def strip_def is_space_def)
  have m: "[''url'' \<mapsto> JStr ''a''] \<in> set [[''url'' \<mapsto> JStr ''a'']]"
    by simp
  from merge_keeps_current [OF m k, of "[[''url'' \<mapsto> JStr ''b'']]"] k m
  show ?thesis by blast
qed

text \<open>
  C10. A record whose \<^verbatim>\<open>url\<close> is missing, \<^verbatim>\<open>None\<close> or white space only has the empty
  canonical URL, and is neither in the URL map nor in the output of the merge, from
  whichever list it came. If it is in \<open>current\<close> and has an integer id \<open>n\<close>, then every
  record of \<open>fresh\<close> with a non-empty canonical URL that \<open>current\<close> does not have is in
  the output under that URL with an integer id above \<open>n\<close>, and every output record with
  a URL that \<open>current\<close> does not have carries an integer id above \<open>n\<close>.
\<close>

theorem merge_drops_blank_urls:
  assumes "blank_url r"
  shows "url_key r = [] \<and>
         r \<notin> snd ` set (merge_dict (\<lambda>job. True) None current fresh) \<and>
         r \<notin> snd ` set (merge_dict (\<lambda>row. True) (Some ''jobroom'') current fresh) \<and>
         r \<notin> set (jobup_merge_jobs_by_url current fresh) \<and>
         r \<notin> set (jobroom_merge_jobs_by_url current fresh) \<and>
         (r \<in> set current \<and> py_int (get r ''id'') = Some n \<longrightarrow>
            new_urls_stored n current fresh (jobup_merge_jobs_by_url current fresh) \<and>
            new_urls_stored n current fresh (jobroom_merge_jobs_by_url current fresh) \<and>
            new_ids_above n current (jobup_merge_jobs_by_url current fresh) \<and>
            new_ids_above n current (jobroom_merge_jobs_by_url current fresh))"
proof -
  have k: "url_key r = []" using assms by (rule blank_url_key)
  have "r \<notin> set (merge_core keep src current fresh)" if "id_stable keep" for keep src
    using that k by (rule core_no_blank)
  then have "r \<notin> set (merge_core (\<lambda>job. True) None current fresh)"
    and "r \<notin> set (merge_core (\<lambda>row. True) (Some ''jobroom'') current fresh)"
    by (simp_all add: id_stable_True)
  moreover have "new_ids_above n current (merge_core (\<lambda>job. True) src current fresh)"
    if "r \<in> set current" and "py_int (get r ''id'') = Some n" for src
    using id_stable_True that by (rule core_new_above)
  moreover have "new_urls_stored n current fresh (merge_core (\<lambda>job. True) src current fresh)"
    if "r \<in> set current" and "py_int (get r ''id'') = Some n" for src
    using id_stable_True _ that by (rule core_new_stored) simp
  ultimately show ?thesis
    unfolding jobup_merge_jobs_by_url_def jobroom_merge_jobs_by_url_def
    using k by (simp add: set_merge_core [symmetric])
qed

theorem merge_drops_blank_urls_witness:
  "blank_url [''url'' \<mapsto> JStr '' '', ''id'' \<mapsto> JInt 7] \<and>
   [''url'' \<mapsto> JStr '' '', ''id'' \<mapsto> JInt 7] \<in> set [[''url'' \<mapsto> JStr '' '', ''id'' \<mapsto> JInt 7]] \<and>
   py_int (get [''url'' \<mapsto> JStr '' '', ''id'' \<mapsto> JInt 7] ''id'') = Some 7 \<and>
   new_urls_stored 7 [[''url'' \<mapsto> JStr '' '', ''id'' \<mapsto> JInt 7]] [[''url'' \<mapsto> JStr ''a'']]
     (jobup_merge_jobs_by_url [[''url'' \<mapsto> JStr '' '', ''id'' \<mapsto> JInt 7]]
        [[''url'' \<mapsto> JStr ''a'']]) \<and>
   map (\<lambda>j. (url_key j, get j ''id''))
     (jobup_merge_jobs_by_url [[''url'' \<mapsto> JStr '' '', ''id'' \<mapsto> JInt 7]]
        [[''url'' \<mapsto> JStr ''a'']]) = [(''a'', JInt 8)]"
proof -
  have b: "blank_url [''url'' \<mapsto> JStr '' '', ''id'' \<mapsto> JInt 7]"
    by (simp add: blank_url_def is_space_def)
  have i: "py_int (get [''url'' \<mapsto> JStr '' '', ''id'' \<mapsto> JInt 7] ''id'') = Some 7"
    by (simp add: get_def)
  have e: "map (\<lambda>j. (url_key j, get j ''id''))
     (jobup_merge_jobs_by_url [[''url'' \<mapsto> JStr '' '', ''id'' \<mapsto> JInt 7]]
        [[''url'' \<mapsto> JStr ''a'']]) = [(''a'', JInt 8)]"
    by (simp add: jobup_merge_jobs_by_url_def merge_core_def merge_dict_def sort_desc_def
        sort_id_def url_key_def get_def py_or_def strip_def is_space_def Let_def
        setdefault_source_def is_int_def has_id_def)
  from merge_drops_blank_urls [OF b, of "[[''url'' \<mapsto> JStr '' '', ''id'' \<mapsto> JInt 7]]"
      "[[''url'' \<mapsto> JStr ''a'']]" 7] b i e
  show ?thesis by simp
qed

section \<open>The date window and the language filter\<close>

text \<open>
  C5. \<^verbatim>\<open>within_days\<close> is true iff no window is set, or the date is a non-empty string
  that parses and the age in days \<open>today - day\<close> is from 0 to the window \<open>n\<close>. With a
  window set it is false for \<^verbatim>\<open>None\<close>, for the empty string, for a string that does not
  parse, for a day after today and for a day more than \<open>n\<close> days before today.
\<close>

theorem within_days_window:
  "(within_days fromisoformat today posting_date max_days \<longleftrightarrow>
      max_days = None \<or>
      (\<exists>s day. posting_date = Some s \<and> s \<noteq> [] \<and> fromisoformat s = Some day \<and>
         0 \<le> today - day \<and> today - day \<le> the max_days)) \<and>
   \<not> within_days fromisoformat today None (Some n) \<and>
   \<not> within_days fromisoformat today (Some []) (Some n) \<and>
   (fromisoformat t = None \<longrightarrow> \<not> within_days fromisoformat today (Some t) (Some n)) \<and>
   (fromisoformat t = Some d \<and> (today < d \<or> n < today - d) \<longrightarrow>
      \<not> within_days fromisoformat today (Some t) (Some n))"
proof -
  have "\<not> within_days fromisoformat today (Some t) (Some n)"
    if "fromisoformat t = Some d" and "today < d \<or> n < today - d"
    using that by (auto simp: within_days_iff)
  then show ?thesis
    by (auto simp: within_days_iff)
qed

theorem within_days_window_witness:
  "(\<lambda>s. if s = ''2026-11-01'' then Some 10 else None) ''soon'' = (None :: int option) \<and>
   \<not> within_days (\<lambda>s. if s = ''2026-11-01'' then Some 10 else None) 12 (Some ''soon'') (Some 30) \<and>
   (\<lambda>s. if s = ''2026-11-01'' then Some 10 else None) ''2026-11-01'' = Some (10 :: int) \<and>
   1 < (12 :: int) - 10 \<and>
   \<not> within_days (\<lambda>s. if s = ''2026-11-01'' then Some 10 else None) 12 (Some ''2026-11-01'') (Some 1) \<and>
   within_days (\<lambda>s. if s = ''2026-11-01'' then Some 10 else None) 12 (Some ''2026-11-01'') (Some 2)"
  using within_days_window
    [where fromisoformat = "\<lambda>s. if s = ''2026-11-01'' then Some 10 else None"
       and today = 12 and t = "''soon''" and n = 30 and posting_date = "Some ''2026-11-01''"
       and max_days = "Some 2"]
    within_days_window
    [where fromisoformat = "\<lambda>s. if s = ''2026-11-01'' then Some 10 else None"
       and today = 12 and t = "''2026-11-01''" and n = 1 and d = 10]
  by simp

text \<open>
  C9, for talent, fails for each choice of one target language: talent's test has two.
  A title with two English hint words and no French one is accepted, and so is a title
  with two French hint words and no English one.
\<close>

theorem talent_accepts_two_languages:
  "is_allowed_language (JStr ''With the Team'') JNull \<and>
   overlap (talent_tokens (JStr ''With the Team'') JNull) talent_FR_HINTS = 0 \<and>
   is_allowed_language (JStr ''Avec vous'') JNull \<and>
   overlap (talent_tokens (JStr ''Avec vous'') JNull) talent_EN_HINTS = 0"
  by code_simp

text \<open>
  C9 as amended. jobroom's \<^verbatim>\<open>is_french_job\<close> accepts a row iff its \<^verbatim>\<open>language_codes\<close>
  is a list with a member that reads \<^verbatim>\<open>fr\<close> in lower case, or the rule of the counts
  holds for French against English, German and Italian: the tokens are the maximal runs
  of at least 3 letters a to z of the lowered title, a blank and the lowered description,
  and the count of a language is the number of its hint words among them. talent's
  \<^verbatim>\<open>_is_allowed_language\<close> reads no language tag and has two target languages: it
  accepts iff the rule of the counts holds for French or holds for English, each against
  the three other languages, with talent's letters (a to z and sixteen accented letters)
  and talent's hint words.
\<close>

theorem relevance_filters:
  "(is_french_job row \<longleftrightarrow>
      (\<exists>xs s. get row ''language_codes'' = JList xs s \<and>
         (\<exists>x. x \<in> set xs \<and> lower (py_str x) = ''fr'')) \<or>
      spec_accepts
        (spec_tokens (\<lambda>c. CHR ''a'' \<le> c \<and> c \<le> CHR ''z'')
           (lower (py_str (py_or (get row ''title'') (JStr [])) @ '' '' @
                   py_str (py_or (get row ''description'') (JStr [])))))
        {''avec'', ''pour'', ''poste'', ''vous'', ''nous'', ''experience'', ''equipe'', ''mission'',
         ''competences'', ''formation'', ''travail'', ''emploi'', ''profil'', ''francais'',
         ''responsable'', ''gestion'', ''assurer'', ''recherche'', ''candidat''}
        [{''with'', ''for'', ''you'', ''team'', ''experience'', ''job'', ''position'', ''skills'',
          ''work'', ''english''},
         {''mit'', ''fur'', ''sie'', ''erfahrung'', ''stelle'', ''aufgaben'', ''kenntnisse'',
          ''arbeit'', ''deutsch''},
         {''con'', ''per'', ''lavoro'', ''posizione'', ''esperienza'', ''richiesto'',
          ''competenze'', ''squadra''}]) \<and>
   (is_allowed_language title description \<longleftrightarrow>
      spec_accepts
        (spec_tokens
           (\<lambda>c. (CHR ''a'' \<le> c \<and> c \<le> CHR ''z'') \<or>
              c \<in> set [CHR 0xE0, CHR 0xE2, CHR 0xE7, CHR 0xE9, CHR 0xE8, CHR 0xEA, CHR 0xEB,
                       CHR 0xEE, CHR 0xEF, CHR 0xF4, CHR 0xFB, CHR 0xF9, CHR 0xFC, CHR 0xFF,
                       CHR 0xF1, CHR 0xE6])
           (lower (py_str (py_or title (JStr [])) @ '' '' @
                   py_str (py_or description (JStr [])))))
        {''avec'', ''pour'', ''poste'', ''vous'', ''nous'', ''experience'',
         ''exp'' @ [CHR 0xE9] @ ''rience'', ''equipe'', [CHR 0xE9] @ ''quipe'', ''mission'',
         ''competences'', ''comp'' @ [CHR 0xE9] @ ''tences'', ''formation'', ''travail'',
         ''emploi'', ''profil'', ''francais'', ''fran'' @ [CHR 0xE7] @ ''ais'', ''responsable'',
         ''gestion'', ''assurer'', ''recherche'', ''candidat''}
        [{''with'', ''for'', ''you'', ''team'', ''experience'', ''job'', ''position'', ''skills'',
          ''work'', ''english'', ''required''},
         {''mit'', ''f'' @ [CHR 0xFC] @ ''r'', ''sie'', ''erfahrung'', ''stelle'', ''aufgaben'',
          ''kenntnisse'', ''arbeit'', ''deutsch''},
         {''con'', ''per'', ''lavoro'', ''posizione'', ''esperienza'', ''richiesto'',
          ''competenze'', ''squadra''}] \<or>
      spec_accepts
        (spec_tokens
           (\<lambda>c. (CHR ''a'' \<le> c \<and> c \<le> CHR ''z'') \<or>
              c \<in> set [CHR 0xE0, CHR 0xE2, CHR 0xE7, CHR 0xE9, CHR 0xE8, CHR 0xEA, CHR 0xEB,
                       CHR 0xEE, CHR 0xEF, CHR 0xF4, CHR 0xFB, CHR 0xF9, CHR 0xFC, CHR 0xFF,
                       CHR 0xF1, CHR 0xE6])
           (lower (py_str (py_or title (JStr [])) @ '' '' @
                   py_str (py_or description (JStr [])))))
        {''with'', ''for'', ''you'', ''team'', ''experience'', ''job'', ''position'', ''skills'',
         ''work'', ''english'', ''required''}
        [{''avec'', ''pour'', ''poste'', ''vous'', ''nous'', ''experience'',
          ''exp'' @ [CHR 0xE9] @ ''rience'', ''equipe'', [CHR 0xE9] @ ''quipe'', ''mission'',
          ''competences'', ''comp'' @ [CHR 0xE9] @ ''tences'', ''formation'', ''travail'',
          ''emploi'', ''profil'', ''francais'', ''fran'' @ [CHR 0xE7] @ ''ais'', ''responsable'',
          ''gestion'', ''assurer'', ''recherche'', ''candidat''},
         {''mit'', ''f'' @ [CHR 0xFC] @ ''r'', ''sie'', ''erfahrung'', ''stelle'', ''aufgaben'',
          ''kenntnisse'', ''arbeit'', ''deutsch''},
         {''con'', ''per'', ''lavoro'', ''posizione'', ''esperienza'', ''richiesto'',
          ''competenze'', ''squadra''}])"
  by (simp only: is_french_job_counts is_allowed_language_counts tagged_french_iff
      jobroom_token_set talent_token_set hint_sets)

section \<open>The seen-set\<close>


section \<open>The crawl: when it stops\<close>

text \<open>
  C6, for jobup, fails twice (threshold 3, the three links \<open>k1\<close>, \<open>k2\<close>, \<open>k3\<close> known). The
  links of page 1 are taken without the streak test: on the first site all five links of
  page 1 are appended and the pages 2 and 3 are asked for. And the later pages skip a link
  already seen in this run before the streak test: on the second site page 2 lists the
  three known links of page 1 and two new ones, the new ones are appended and page 3 is
  asked for.
\<close>

theorem known_links_do_not_stop_jobup:
  "links (jobup_crawl site_a 0 3 {''k1'', ''k2'', ''k3''}) =
     [''k1'', ''k2'', ''k3'', ''n1'', ''n2'', ''m1''] \<and>
   requested (jobup_crawl site_a 0 3 {''k1'', ''k2'', ''k3''}) = [1, 2, 3] \<and>
   links (jobup_crawl site_b 0 3 {''k1'', ''k2'', ''k3''}) =
     [''k1'', ''k2'', ''k3'', ''n1'', ''n2'', ''m1''] \<and>
   requested (jobup_crawl site_b 0 3 {''k1'', ''k2'', ''k3''}) = [1, 2, 3]"
  by (simp add: crawl_eval site_a_def site_b_def)

text \<open>
  C6 as amended. In jobup's two page loops and in talent's (the pages from 2 on), with
  threshold 3: if the page is fetched with a status below 400 and a non-empty text, its
  links are \<open>k1, k2, k3, n1, n2\<close>, the first three different, known and not yet seen in
  this run, and the streak counter is from 0 to 2, then the loop appends the known links
  up to the one that brings the counter to 3 (all three when it was 0), appends neither
  \<open>n1\<close> nor \<open>n2\<close>, and asks for no further page. In jobroom's loop, on every page: if the
  rows have the URLs of three known rows first, then the loop records the known URLs up to
  the one that brings the counter to 3, records no later row, and ends.
\<close>

theorem known_streak_stop:
  "(three_known known (seen_links st) [k1, k2, k3] \<and>
    0 \<le> known_streak st \<and> known_streak st < 3 \<and>
    session_get s page = Inr (Response code html) \<and> code < 400 \<and> html \<noteq> [] \<and>
    extract_detail_links s html = [k1, k2, k3, n1, n2] \<longrightarrow>
      jobup_pages_detected s 3 known st (page # rest) =
        stopped_after (st\<lparr>requested := requested st @ [page]\<rparr>)
          (take (nat (3 - known_streak st)) [k1, k2, k3]) \<and>
      jobup_pages_dynamic s 3 known st (page # rest) =
        stopped_after (st\<lparr>requested := requested st @ [page]\<rparr>)
          (take (nat (3 - known_streak st)) [k1, k2, k3]) \<and>
      talent_pages s 3 known st (page # rest) =
        Inr (stopped_after (st\<lparr>requested := requested st @ [page]\<rparr>)
          (take (nat (3 - known_streak st)) [k1, k2, k3]))) \<and>
   (args_stop_after_seen a = 3 \<and> known_rows known_urls [r1, r2, r3] \<and>
    0 \<le> seen_streak jst \<and> seen_streak jst < 3 \<and>
    \<not> (args_max_pages a > 0 \<and> jpage \<ge> args_max_pages a) \<and>
    search_page jpage = Inr ([r1, r2, r3, r4, r5], total_api) \<longrightarrow>
      jobroom_pages a fromisoformat today search_page known_urls jpage jst =
        Some (jst\<lparr>searched := searched jst @ [jpage],
                   total_api_known :=
                     (if total_api_known jst = None then total_api else total_api_known jst),
                   all_page_urls :=
                     all_page_urls jst @
                       take (nat (3 - seen_streak jst)) [url_key r1, url_key r2, url_key r3],
                   seen_streak := 3\<rparr>))"
  using pages_three_known [where known = known and st = st and ?k1.0 = k1 and ?k2.0 = k2
      and ?k3.0 = k3 and s = s and page = page and code = code and html = html
      and others = "[n1, n2]" and rest = rest]
    jobroom_pages_three_known [where a = a and known = known_urls and ?r1.0 = r1 and ?r2.0 = r2
      and ?r3.0 = r3 and st = jst and page = jpage and search_page = search_page
      and others = "[r4, r5]" and total_api = total_api and f = fromisoformat and today = today]
  by blast

theorem known_streak_stop_witness:
  "three_known {''k1'', ''k2'', ''k3''} (seen_links crawl_init) [''k1'', ''k2'', ''k3''] \<and>
   session_get site_a 1 = Inr (Response 200 ''p1'') \<and>
   extract_detail_links site_a ''p1'' = [''k1'', ''k2'', ''k3'', ''n1'', ''n2''] \<and>
   links (jobup_pages_detected site_a 3 {''k1'', ''k2'', ''k3''} crawl_init [1, 2, 3]) =
     [''k1'', ''k2'', ''k3''] \<and>
   requested (jobup_pages_detected site_a 3 {''k1'', ''k2'', ''k3''} crawl_init [1, 2, 3]) = [1] \<and>
   known_rows {''k1'', ''k2'', ''k3''}
     [[''url'' \<mapsto> JStr ''k1''], [''url'' \<mapsto> JStr ''k2''], [''url'' \<mapsto> JStr ''k3'']] \<and>
   jobroom_pages
     \<lparr>args_max_pages = 0, args_max_jobs = 0, args_stop_after_seen = 3, args_days = 0,
      args_allow_non_french = True\<rparr>
     (\<lambda>t. None) 0
     (\<lambda>page. Inr ([[''url'' \<mapsto> JStr ''k1''], [''url'' \<mapsto> JStr ''k2''], [''url'' \<mapsto> JStr ''k3''],
                    [''url'' \<mapsto> JStr ''n1''], [''url'' \<mapsto> JStr ''n2'']], None))
     {''k1'', ''k2'', ''k3''} 0 jobroom_init =
   Some (jobroom_init\<lparr>searched := [0], all_page_urls := [''k1'', ''k2'', ''k3''],
                       seen_streak := 3\<rparr>)"
proof -
  have t: "three_known {''k1'', ''k2'', ''k3''} (seen_links crawl_init) [''k1'', ''k2'', ''k3'']"
    by (simp add: three_known_def crawl_init_def)
  have g: "session_get site_a 1 = Inr (Response 200 ''p1'')"
    and l: "extract_detail_links site_a ''p1'' = [''k1'', ''k2'', ''k3'', ''n1'', ''n2'']"
    by (simp_all add: site_a_def)
  have c: "0 \<le> known_streak crawl_init" "known_streak crawl_init < 3"
    by (simp_all add: crawl_init_def)
  from known_streak_stop
    [where known = "{''k1'', ''k2'', ''k3''}" and st = crawl_init and s = site_a and page = 1
       and code = 200 and html = "''p1''" and rest = "[2, 3]"
       and ?k1.0 = "''k1''" and ?k2.0 = "''k2''" and ?k3.0 = "''k3''" and ?n1.0 = "''n1''"
       and ?n2.0 = "''n2''"] t g l c
  have "jobup_pages_detected site_a 3 {''k1'', ''k2'', ''k3''} crawl_init [1, 2, 3] =
      stopped_after (crawl_init\<lparr>requested := requested crawl_init @ [1]\<rparr>)
        (take (nat (3 - known_streak crawl_init)) [''k1'', ''k2'', ''k3''])"
    by simp
  then have a: "links (jobup_pages_detected site_a 3 {''k1'', ''k2'', ''k3''} crawl_init [1, 2, 3]) =
      [''k1'', ''k2'', ''k3'']"
    and b: "requested (jobup_pages_detected site_a 3 {''k1'', ''k2'', ''k3''} crawl_init [1, 2, 3]) =
      [1]"
    by (simp_all add: stopped_after_def crawl_init_def)
  have u: "url_key [''url'' \<mapsto> JStr ''k1''] = ''k1''" "url_key [''url'' \<mapsto> JStr ''k2''] = ''k2''"
    "url_key [''url'' \<mapsto> JStr ''k3''] = ''k3''"
    by (simp_all add: url_key_def get_def py_or_def strip_def is_space_def)
  have k: "known_rows {''k1'', ''k2'', ''k3''}
     [[''url'' \<mapsto> JStr ''k1''], [''url'' \<mapsto> JStr ''k2''], [''url'' \<mapsto> JStr ''k3'']]"
    by (simp add: known_rows_def u)
  from known_streak_stop
    [where a = "\<lparr>args_max_pages = 0, args_max_jobs = 0, args_stop_after_seen = 3, args_days = 0,
        args_allow_non_french = True\<rparr>"
       and known_urls = "{''k1'', ''k2'', ''k3''}" and jst = jobroom_init and jpage = 0
       and ?r1.0 = "[''url'' \<mapsto> JStr ''k1'']" and ?r2.0 = "[''url'' \<mapsto> JStr ''k2'']"
       and ?r3.0 = "[''url'' \<mapsto> JStr ''k3'']" and ?r4.0 = "[''url'' \<mapsto> JStr ''n1'']"
       and ?r5.0 = "[''url'' \<mapsto> JStr ''n2'']" and total_api = None
       and search_page = "\<lambda>page. Inr ([[''url'' \<mapsto> JStr ''k1''], [''url'' \<mapsto> JStr ''k2''],
          [''url'' \<mapsto> JStr ''k3''], [''url'' \<mapsto> JStr ''n1''], [''url'' \<mapsto> JStr ''n2'']], None)"
       and fromisoformat = "\<lambda>t. None" and today = 0] k
  have j: "jobroom_pages
     \<lparr>args_max_pages = 0, args_max_jobs = 0, args_stop_after_seen = 3, args_days = 0,
      args_allow_non_french = True\<rparr>
     (\<lambda>t. None) 0
     (\<lambda>page. Inr ([[''url'' \<mapsto> JStr ''k1''], [''url'' \<mapsto> JStr ''k2''], [''url'' \<mapsto> JStr ''k3''],
                    [''url'' \<mapsto> JStr ''n1''], [''url'' \<mapsto> JStr ''n2'']], None))
     {''k1'', ''k2'', ''k3''} 0 jobroom_init =
   Some (jobroom_init\<lparr>searched := [0], all_page_urls := [''k1'', ''k2'', ''k3''],
                       seen_streak := 3\<rparr>)"
    by (simp add: jobroom_init_def u)
  from t g l a b k j show ?thesis by blast
qed

text \<open>
  C7, for every page and every mode, fails. With a page count read off page 1, jobup's
  loop has no test for zero links: on the first site page 2 lists nothing and page 3 is
  asked for. And page 1 is outside the loops: on the third site page 1 lists nothing and
  jobup and talent ask for page 2.
\<close>

theorem zero_links_do_not_stop:
  "zero_links site_a 2 \<and>
   requested (jobup_crawl site_a 0 0 {}) = [1, 2, 3] \<and>
   zero_links site_c 1 \<and>
   requested (jobup_crawl site_c 0 0 {}) = [1, 2] \<and>
   (case talent_crawl site_c 0 0 {} of Inl exc \<Rightarrow> [] | Inr st \<Rightarrow> requested st) = [1, 2]"
  by (simp add: crawl_eval site_a_def site_c_def zero_links_def)

text \<open>
  C7 as amended. In jobup's loop without a page count and in talent's loop (the pages
  from 2 on): a page that is fetched and lists no link ends the loop, with nothing but
  the request added to the state; so in every run of these loops the pages asked for are
  the first ones of the list, and none of them but the last listed zero links. The same
  for the whole crawl of jobup, when page 1 gives no page count, and of talent: the pages
  asked for are page 1 and the first pages from 2 on, up to the first that lists nothing.
\<close>

theorem zero_links_stop:
  "(zero_links s page \<longrightarrow>
      jobup_pages_dynamic s sas known st (page # rest) =
        st\<lparr>requested := requested st @ [page]\<rparr> \<and>
      talent_pages s sas known st (page # rest) =
        Inr (st\<lparr>requested := requested st @ [page]\<rparr>)) \<and>
   (\<exists>k. requested (jobup_pages_dynamic s sas known st pages) = requested st @ take k pages \<and>
        stops_at_zero_links s (take k pages)) \<and>
   (case talent_pages s sas known st pages of
      Inl exc \<Rightarrow> True
    | Inr st' \<Rightarrow> (\<exists>k. requested st' = requested st @ take k pages \<and>
                     stops_at_zero_links s (take k pages))) \<and>
   (extract_total_pages s (jobup_page1_html (session_get s 1)) = None \<longrightarrow>
      (\<exists>k. requested (jobup_crawl s arg_max_pages sas known) =
             1 # take k [2..(if arg_max_pages > 0 then arg_max_pages else 200)] \<and>
           stops_at_zero_links s
             (take k [2..(if arg_max_pages > 0 then arg_max_pages else 200)]))) \<and>
   (case talent_crawl s arg_max_pages sas known of
      Inl exc \<Rightarrow> True
    | Inr st' \<Rightarrow>
        (\<exists>k. requested st' = 1 # take k [2..(if arg_max_pages > 0 then arg_max_pages else 200)] \<and>
             stops_at_zero_links s
               (take k [2..(if arg_max_pages > 0 then arg_max_pages else 200)])))"
  using jobup_crawl_requested [where s = s and arg_max_pages = arg_max_pages and sas = sas
      and known = known]
    talent_crawl_requested [where s = s and arg_max_pages = arg_max_pages and sas = sas
      and known = known]
    dynamic_zero_links [where s = s and page = page and sas = sas and known = known
      and st = st and rest = rest]
    talent_zero_links [where s = s and page = page and sas = sas and known = known
      and st = st and rest = rest]
    dynamic_requested [where s = s and sas = sas and known = known and st = st and pages = pages]
    talent_requested [where s = s and sas = sas and known = known and st = st and pages = pages]
  by blast

theorem zero_links_stop_witness:
  "zero_links site_a 2 \<and>
   requested (jobup_pages_dynamic site_a 0 {} crawl_init [2, 3]) = [2] \<and>
   talent_pages site_a 0 {} crawl_init [2, 3] = Inr (crawl_init\<lparr>requested := [2]\<rparr>)"
proof -
  have z: "zero_links site_a 2" by (simp add: zero_links_def site_a_def)
  with zero_links_stop [where s = site_a and page = 2 and sas = 0 and known = "{}"
      and st = crawl_init and rest = "[3]"]
  have "jobup_pages_dynamic site_a 0 {} crawl_init [2, 3] =
          crawl_init\<lparr>requested := requested crawl_init @ [2]\<rparr>"
    and "talent_pages site_a 0 {} crawl_init [2, 3] =
          Inr (crawl_init\<lparr>requested := requested crawl_init @ [2]\<rparr>)"
    by blast+
  with z show ?thesis by (simp add: crawl_init_def)
qed

text \<open>
  C8. When a search page raises or answers with a status from 400 to 599, jobup's two
  loops end with the state as it was (the links found so far are kept, and jobup's
  \<^verbatim>\<open>main\<close> always ends by saving), and jobroom's loop ends with its state. talent's loop
  ends with the exception instead, and so does talent's \<^verbatim>\<open>main\<close>, for page 1 and for any
  page: nothing is merged and nothing is saved.
\<close>

theorem search_failure_stops_jobup_aborts_talent:
  "(fetch_fails s page \<longrightarrow>
      jobup_pages_detected s sas known st (page # rest) =
        st\<lparr>requested := requested st @ [page]\<rparr> \<and>
      jobup_pages_dynamic s sas known st (page # rest) =
        st\<lparr>requested := requested st @ [page]\<rparr> \<and>
      (\<exists>exc. talent_pages s sas known st (page # rest) = Inl exc)) \<and>
   (fetch_fails s 1 \<longrightarrow>
      (\<exists>exc. talent_main s fetch_detail fromisoformat today arg_max_pages arg_max_jobs
           arg_days arg_stop_after_seen arg_allow_non_french existing_jobs auto_state =
         Inl exc)) \<and>
   (talent_crawl s arg_max_pages arg_stop_after_seen
        (load_known_urls existing_jobs auto_state) = Inl exc' \<longrightarrow>
      talent_main s fetch_detail fromisoformat today arg_max_pages arg_max_jobs
        arg_days arg_stop_after_seen arg_allow_non_french existing_jobs auto_state =
      Inl exc') \<and>
   (\<not> (args_max_pages a > 0 \<and> jpage \<ge> args_max_pages a) \<and> search_page jpage = Inl jexc \<longrightarrow>
      jobroom_pages a fromisoformat today search_page known_urls jpage jst =
        Some (jst\<lparr>searched := searched jst @ [jpage]\<rparr>))"
  using jobup_fetch_fails [of s page sas known st rest]
    talent_fetch_fails [of s page sas known st rest]
    talent_main_fails [of s fetch_detail fromisoformat today arg_max_pages arg_max_jobs
      arg_days arg_stop_after_seen arg_allow_non_french existing_jobs auto_state]
    talent_main_crawl_fails [of s arg_max_pages arg_stop_after_seen existing_jobs auto_state exc'
      fetch_detail fromisoformat today arg_max_jobs arg_days arg_allow_non_french]
    jobroom_fetch_fails [of a jpage search_page jexc fromisoformat today known_urls jst]
  by blast

theorem search_failure_witness:
  "fetch_fails site_d 2 \<and>
   links (jobup_crawl site_d 0 3 {}) = [''u1'', ''u2''] \<and>
   requested (jobup_crawl site_d 0 3 {}) = [1, 2] \<and>
   set (seen_urls (jobup_main site_d (\<lambda>u. Some [''url'' \<mapsto> JStr u]) (\<lambda>t. None) 0 0 0 0 False 3
      [] Map.empty [] Map.empty)) = {''u1'', ''u2''} \<and>
   map url_key (output_json (jobup_main site_d (\<lambda>u. Some [''url'' \<mapsto> JStr u]) (\<lambda>t. None) 0 0 0 0
      False 3 [] Map.empty [] Map.empty)) = [''u2'', ''u1''] \<and>
   talent_crawl site_d 0 3 (load_known_urls [] Map.empty) = Inl (HTTPError 429) \<and>
   talent_main site_d (\<lambda>u. Some [''url'' \<mapsto> JStr u]) (\<lambda>t. None) 0 0 0 0 3 False [] Map.empty =
     Inl (HTTPError 429)"
proof -
  have f: "fetch_fails site_d 2" by (simp add: fetch_fails_def site_d_def)
  have k: "load_known_urls [] Map.empty = {}"
    by (simp add: load_known_urls_def urls_of_def get_def)
  have c: "jobup_crawl site_d 0 3 {} =
      \<lparr>links = [''u1'', ''u2''], seen_links = {''u2'', ''u1''}, known_streak = 0,
       requested = [1, 2]\<rparr>"
    by (simp add: crawl_eval site_d_def)
  have t: "talent_crawl site_d 0 3 (load_known_urls [] Map.empty) = Inl (HTTPError 429)"
    unfolding k by (simp add: crawl_eval site_d_def)
  have m: "jobup_merge_jobs_by_url [] [[''url'' \<mapsto> JStr ''u1''], [''url'' \<mapsto> JStr ''u2'']] =
      [[''url'' \<mapsto> JStr ''u2'', ''id'' \<mapsto> JInt 2], [''url'' \<mapsto> JStr ''u1'', ''id'' \<mapsto> JInt 1]]"
    by (simp add: jobup_merge_jobs_by_url_def merge_core_def merge_dict_def sort_desc_def
        sort_id_def url_key_def get_def py_or_def strip_def is_space_def Let_def
        setdefault_source_def is_int_def has_id_def)
  have u: "map url_key [[''url'' \<mapsto> JStr ''u2'', ''id'' \<mapsto> JInt 2], [''url'' \<mapsto> JStr ''u1'', ''id'' \<mapsto> JInt 1]]
      = [''u2'', ''u1'']"
    by (simp add: url_key_def get_def py_or_def strip_def is_space_def)
  have j: "jobup_main site_d (\<lambda>u. Some [''url'' \<mapsto> JStr u]) (\<lambda>t. None) 0 0 0 0 False 3
      [] Map.empty [] Map.empty =
      jobup_finish (\<lambda>t. None) 0 False None {} [] [] [''u1'', ''u2'']
        [[''url'' \<mapsto> JStr ''u1''], [''url'' \<mapsto> JStr ''u2'']]"
    by (simp add: jobup_main_def k c Let_def limit_jobs_def fetch_details_def
        List.map_filter_simps)
  have s: "set (seen_urls (jobup_finish (\<lambda>t. None) 0 False None {} [] [] [''u1'', ''u2'']
        [[''url'' \<mapsto> JStr ''u1''], [''url'' \<mapsto> JStr ''u2'']])) = {''u1'', ''u2''}"
    by (subst set_jobup_finish)
      (auto simp: m urls_of_def url_key_def get_def py_or_def strip_def is_space_def)
  have o: "map url_key (output_json (jobup_finish (\<lambda>t. None) 0 False None {} [] [] [''u1'', ''u2'']
        [[''url'' \<mapsto> JStr ''u1''], [''url'' \<mapsto> JStr ''u2'']])) = [''u2'', ''u1'']"
    by (simp add: jobup_finish_def Let_def m within_days_def url_key_def get_def py_or_def
        strip_def is_space_def)
  from search_failure_stops_jobup_aborts_talent
    [where s = site_d and arg_max_pages = 0 and arg_stop_after_seen = 3 and existing_jobs = "[]"
       and auto_state = Map.empty and exc' = "HTTPError 429"
       and fetch_detail = "\<lambda>u. Some [''url'' \<mapsto> JStr u]" and fromisoformat = "\<lambda>t. None"
       and today = 0 and arg_max_jobs = 0 and arg_days = 0 and arg_allow_non_french = False] t
  have "talent_main site_d (\<lambda>u. Some [''url'' \<mapsto> JStr u]) (\<lambda>t. None) 0 0 0 0 3 False [] Map.empty =
     Inl (HTTPError 429)"
    by blast
  with f c t j s o show ?thesis by simp
qed

section \<open>The merge is idempotent in the fresh batch\<close>

text \<open>
  C2. For each of the four merges, merging the output of \<^verbatim>\<open>merge_jobs_by_url(current, fresh)\<close>
  with the same batch again gives the same list: the same records with the same ids in
  the same order, so no new id and no second record for a URL. This holds for the batch
  as it was given, and for the batch as the first call left it (the call writes \<^verbatim>\<open>id\<close>
  and the default \<^verbatim>\<open>source\<close> into the records of the batch): for every \<open>fresh'\<close> that
  differs from \<open>fresh\<close> only by such writes.
\<close>

theorem merge_idempotent:
  "jobup_merge_jobs_by_url (jobup_merge_jobs_by_url current fresh) fresh =
     jobup_merge_jobs_by_url current fresh \<and>
   ge_merge_jobs_by_url (ge_merge_jobs_by_url current fresh) fresh =
     ge_merge_jobs_by_url current fresh \<and>
   jobroom_merge_jobs_by_url (jobroom_merge_jobs_by_url current fresh) fresh =
     jobroom_merge_jobs_by_url current fresh \<and>
   talent_merge_jobs_by_url (talent_merge_jobs_by_url current fresh filter_lang) fresh filter_lang =
     talent_merge_jobs_by_url current fresh filter_lang \<and>
   (written_back None (jobup_merge_jobs_by_url current fresh) fresh fresh' \<longrightarrow>
      jobup_merge_jobs_by_url (jobup_merge_jobs_by_url current fresh) fresh' =
        jobup_merge_jobs_by_url current fresh) \<and>
   (written_back (Some ''ge'') (ge_merge_jobs_by_url current fresh) fresh fresh' \<longrightarrow>
      ge_merge_jobs_by_url (ge_merge_jobs_by_url current fresh) fresh' =
        ge_merge_jobs_by_url current fresh) \<and>
   (written_back (Some ''jobroom'') (jobroom_merge_jobs_by_url current fresh) fresh fresh' \<longrightarrow>
      jobroom_merge_jobs_by_url (jobroom_merge_jobs_by_url current fresh) fresh' =
        jobroom_merge_jobs_by_url current fresh) \<and>
   (written_back (Some ''talent'') (talent_merge_jobs_by_url current fresh filter_lang) fresh fresh'
      \<longrightarrow>
      talent_merge_jobs_by_url (talent_merge_jobs_by_url current fresh filter_lang) fresh'
        filter_lang =
        talent_merge_jobs_by_url current fresh filter_lang)"
  unfolding jobup_merge_jobs_by_url_def ge_merge_jobs_by_url_def jobroom_merge_jobs_by_url_def
    talent_merge_jobs_by_url_def
  using merge_core_idempotent [OF id_stable_True]
    merge_core_idempotent [OF id_stable_talent]
    merge_core_written [OF id_stable_True]
    merge_core_written [OF id_stable_talent]
  by blast

theorem merge_idempotent_witness:
  "map (\<lambda>j. (url_key j, get j ''id''))
     (jobup_merge_jobs_by_url [[''url'' \<mapsto> JStr ''a'', ''id'' \<mapsto> JInt 1]]
        [[''url'' \<mapsto> JStr ''b''], [''url'' \<mapsto> JStr ''b'', ''title'' \<mapsto> JStr ''x'']]) =
     [(''b'', JInt 2), (''a'', JInt 1)] \<and>
   written_back None
     (jobup_merge_jobs_by_url [[''url'' \<mapsto> JStr ''a'', ''id'' \<mapsto> JInt 1]]
        [[''url'' \<mapsto> JStr ''b''], [''url'' \<mapsto> JStr ''b'', ''title'' \<mapsto> JStr ''x'']])
     [[''url'' \<mapsto> JStr ''b''], [''url'' \<mapsto> JStr ''b'', ''title'' \<mapsto> JStr ''x'']]
     [[''url'' \<mapsto> JStr ''b'', ''id'' \<mapsto> JInt 2],
      [''url'' \<mapsto> JStr ''b'', ''title'' \<mapsto> JStr ''x'', ''id'' \<mapsto> JInt 2]] \<and>
   jobup_merge_jobs_by_url
     (jobup_merge_jobs_by_url [[''url'' \<mapsto> JStr ''a'', ''id'' \<mapsto> JInt 1]]
        [[''url'' \<mapsto> JStr ''b''], [''url'' \<mapsto> JStr ''b'', ''title'' \<mapsto> JStr ''x'']])
     [[''url'' \<mapsto> JStr ''b'', ''id'' \<mapsto> JInt 2],
      [''url'' \<mapsto> JStr ''b'', ''title'' \<mapsto> JStr ''x'', ''id'' \<mapsto> JInt 2]] =
   jobup_merge_jobs_by_url [[''url'' \<mapsto> JStr ''a'', ''id'' \<mapsto> JInt 1]]
     [[''url'' \<mapsto> JStr ''b''], [''url'' \<mapsto> JStr ''b'', ''title'' \<mapsto> JStr ''x'']]"
proof -
  let ?c = "[[''url'' \<mapsto> JStr ''a'', ''id'' \<mapsto> JInt 1]]"
  let ?f = "[[''url'' \<mapsto> JStr ''b''], [''url'' \<mapsto> JStr ''b'', ''title'' \<mapsto> JStr ''x'']]"
  have m: "jobup_merge_jobs_by_url ?c ?f =
      [[''url'' \<mapsto> JStr ''b'', ''title'' \<mapsto> JStr ''x'', ''id'' \<mapsto> JInt 2],
       [''url'' \<mapsto> JStr ''a'', ''id'' \<mapsto> JInt 1]]"
    by (simp add: jobup_merge_jobs_by_url_def merge_core_def merge_dict_def sort_desc_def
        sort_id_def url_key_def get_def py_or_def strip_def is_space_def Let_def
        setdefault_source_def is_int_def has_id_def)
  have u: "url_key [''url'' \<mapsto> JStr ''b''] = ''b''"
    "url_key [''url'' \<mapsto> JStr ''b'', ''title'' \<mapsto> JStr ''x''] = ''b''"
    "url_key [''url'' \<mapsto> JStr ''b'', ''title'' \<mapsto> JStr ''x'', ''id'' \<mapsto> JInt 2] = ''b''"
    "url_key [''url'' \<mapsto> JStr ''a'', ''id'' \<mapsto> JInt 1] = ''a''"
    by (simp_all add: url_key_def get_def py_or_def strip_def is_space_def)
  have a: "map (\<lambda>j. (url_key j, get j ''id'')) (jobup_merge_jobs_by_url ?c ?f) =
      [(''b'', JInt 2), (''a'', JInt 1)]"
    by (simp add: m u) (simp add: get_def)
  have w: "written_back None (jobup_merge_jobs_by_url ?c ?f) ?f
      [[''url'' \<mapsto> JStr ''b'', ''id'' \<mapsto> JInt 2],
       [''url'' \<mapsto> JStr ''b'', ''title'' \<mapsto> JStr ''x'', ''id'' \<mapsto> JInt 2]]"
    unfolding m by (simp add: written_back_def wrote_def u get_def)
  from merge_idempotent [of ?c ?f] w a show ?thesis by blast
qed

end
